theory Spec2Isabelle
  imports Main "HOL-Library.Multiset"
begin

section \<open>Time values and the calendar\<close>

text \<open>
  \<^verbatim>\<open>indexesByTimeRange\<close> works on \<^verbatim>\<open>moment\<close> objects. A moment holds a time value in
  milliseconds since the epoch; every calendar field it reports (year, month, date) is the
  field of the underlying JavaScript \<^verbatim>\<open>Date\<close>, which the language definition derives from
  the time value by the functions below (Day, DayFromYear, YearFromTime, MonthFromTime,
  DateFromTime, MakeDay). Years, months and time values are mathematical integers here:
  the time stamps are whole epoch seconds, and the limit of \<^verbatim>\<open>Date\<close> (about 275760 years
  on either side of 1970) is not part of the model.
\<close>

definition msPerDay :: int where
  "msPerDay = 86400000"

definition Day :: "int \<Rightarrow> int" where
  "Day t = t div msPerDay"

definition TimeWithinDay :: "int \<Rightarrow> int" where
  "TimeWithinDay t = t mod msPerDay"

definition DaysInYear :: "int \<Rightarrow> int" where
  "DaysInYear y =
     (if y mod 4 \<noteq> 0 then 365
      else if y mod 100 \<noteq> 0 then 366
      else if y mod 400 \<noteq> 0 then 365
      else 366)"

definition DayFromYear :: "int \<Rightarrow> int" where
  "DayFromYear y =
     365 * (y - 1970) + (y - 1969) div 4 - (y - 1901) div 100 + (y - 1601) div 400"

text \<open>
  The year of a day number is the largest \<open>y\<close> with \<open>DayFromYear y \<le> d\<close>. It is computed
  from the mean length of a year (146097 days in 400 years), which is off by at most one
  year, and corrected by one comparison on either side.
\<close>

definition YearFromDay :: "int \<Rightarrow> int" where
  "YearFromDay d =
     (let y = 1970 + (400 * d) div 146097
      in if d < DayFromYear y then y - 1
         else if DayFromYear (y + 1) \<le> d then y + 1
         else y)"

definition InLeapYear :: "int \<Rightarrow> bool" where
  "InLeapYear y = (DaysInYear y = 366)"

text \<open>The number of days of year \<open>y\<close> before its month \<open>m\<close> (0 is January, 12 the year's end).\<close>

definition monthStart :: "int \<Rightarrow> int \<Rightarrow> int" where
  "monthStart y m =
     (let l = (if InLeapYear y then 1 else 0)
      in if m \<le> 0 then 0
         else if m = 1 then 31
         else if m = 2 then 59 + l
         else if m = 3 then 90 + l
         else if m = 4 then 120 + l
         else if m = 5 then 151 + l
         else if m = 6 then 181 + l
         else if m = 7 then 212 + l
         else if m = 8 then 243 + l
         else if m = 9 then 273 + l
         else if m = 10 then 304 + l
         else if m = 11 then 334 + l
         else 365 + l)"

definition DayWithinYear :: "int \<Rightarrow> int" where
  "DayWithinYear d = d - DayFromYear (YearFromDay d)"

definition MonthFromDay :: "int \<Rightarrow> int" where
  "MonthFromDay d =
     (let y = YearFromDay d; w = DayWithinYear d
      in if w < monthStart y 1 then 0
         else if w < monthStart y 2 then 1
         else if w < monthStart y 3 then 2
         else if w < monthStart y 4 then 3
         else if w < monthStart y 5 then 4
         else if w < monthStart y 6 then 5
         else if w < monthStart y 7 then 6
         else if w < monthStart y 8 then 7
         else if w < monthStart y 9 then 8
         else if w < monthStart y 10 then 9
         else if w < monthStart y 11 then 10
         else 11)"

definition DateFromDay :: "int \<Rightarrow> int" where
  "DateFromDay d = DayWithinYear d - monthStart (YearFromDay d) (MonthFromDay d) + 1"

text \<open>
  \<^verbatim>\<open>MakeDay(year, month, date)\<close>: the day number of the given date of the given month; a
  month outside 0..11 carries into the year and a date outside the month carries into the
  neighbouring months, as \<^verbatim>\<open>Date.UTC\<close> and the \<^verbatim>\<open>Date\<close> setters do.
\<close>

definition MakeDay :: "int \<Rightarrow> int \<Rightarrow> int \<Rightarrow> int" where
  "MakeDay year month date =
     (let ym = year + month div 12; mn = month mod 12
      in DayFromYear ym + monthStart ym mn + date - 1)"

text \<open>
  The helpers of \<^verbatim>\<open>moment\<close> for the length of a month; \<^verbatim>\<open>daysInMonth\<close> accepts a month
  outside 0..11 and carries it into the year.
\<close>

definition isLeapYear :: "int \<Rightarrow> bool" where
  "isLeapYear year = ((year mod 4 = 0 \<and> year mod 100 \<noteq> 0) \<or> year mod 400 = 0)"

definition daysInMonth :: "int \<Rightarrow> int \<Rightarrow> int" where
  "daysInMonth year month =
     (let modMonth = month mod 12;
          year' = year + (month - modMonth) div 12
      in if modMonth = 1 then (if isLeapYear year' then 29 else 28)
         else 31 - (modMonth mod 7) mod 2)"

subsection \<open>Facts about years\<close>

lemma DaysInYear_cases: "DaysInYear y = 365 \<or> DaysInYear y = 366"
  unfolding DaysInYear_def by simp

lemma div_step: 
  fixes a n :: int
  assumes "0 < n"
  shows "(a + 1) div n = a div n + (if (a + 1) mod n = 0 then 1 else 0)"
proof -
  define q where "q = a div n"
  define r where "r = a mod n"
  have a: "a = n * q + r" and r: "0 \<le> r" "r < n"
    using assms by (simp_all add: q_def r_def)
  show ?thesis
  proof (cases "r + 1 = n")
    case True
    then have e: "a + 1 = n * (q + 1) + 0" using a by (simp add: algebra_simps)
    have "(a + 1) div n = q + 1" using int_div_pos_eq[OF e] assms by simp
    moreover have "(a + 1) mod n = 0" using int_mod_pos_eq[OF e] assms by simp
    ultimately show ?thesis by (simp add: q_def)
  next
    case False
    then have r1: "0 \<le> r + 1" "r + 1 < n" using r by simp_all
    have e: "a + 1 = n * q + (r + 1)" using a by simp
    have "(a + 1) div n = q" using int_div_pos_eq[OF e r1] .
    moreover have "(a + 1) mod n = r + 1" using int_mod_pos_eq[OF e r1] .
    ultimately show ?thesis using r by (simp add: q_def)
  qed
qed

lemma mod_shift4: "(y - 1968) mod 4 = y mod 4" for y :: int
  using mod_mult_self1[of y "-492" 4] by simp
lemma mod_shift100: "(y - 1900) mod 100 = y mod 100" for y :: int
  using mod_mult_self1[of y "-19" 100] by simp
lemma mod_shift400: "(y - 1600) mod 400 = y mod 400" for y :: int
  using mod_mult_self1[of y "-4" 400] by simp
lemma m4: "y mod 100 = 0 \<Longrightarrow> y mod 4 = 0" for y :: int 
  using mod_mod_cancel[of 4 100 y] by simp
lemma m100: "y mod 400 = 0 \<Longrightarrow> y mod 100 = 0" for y :: int 
  using mod_mod_cancel[of 100 400 y] by simp

lemma DayFromYear_step: "DayFromYear (y + 1) = DayFromYear y + DaysInYear y"
proof -
  have a: "(y + 1 - 1969) div 4 = (y - 1969) div 4 + (if y mod 4 = 0 then 1 else 0)"
    using div_step[of 4 "y - 1969"] mod_shift4[of y] by (simp add: algebra_simps)
  have b: "(y + 1 - 1901) div 100 = (y - 1901) div 100 + (if y mod 100 = 0 then 1 else 0)"
    using div_step[of 100 "y - 1901"] mod_shift100[of y] by (simp add: algebra_simps)
  have c: "(y + 1 - 1601) div 400 = (y - 1601) div 400 + (if y mod 400 = 0 then 1 else 0)"
    using div_step[of 400 "y - 1601"] mod_shift400[of y] by (simp add: algebra_simps)
  show ?thesis
    unfolding DayFromYear_def DaysInYear_def a b c
    using m4[of y] m100[of y] by auto
qed

lemma DayFromYear_mean:
  "146097 * (y - 1970) - 506 \<le> 400 * DayFromYear y"
  "400 * DayFromYear y \<le> 146097 * (y - 1970) + 589"
proof -
  define a where "a = (y - 1969) div 4"
  define b where "b = (y - 1901) div 100"
  define c where "c = (y - 1601) div 400"
  have a: "4 * a \<le> y - 1969" "y - 1969 < 4 * a + 4"
    unfolding a_def by (simp_all add: zdiv_mono1 pos_imp_zdiv_nonneg_iff) 
  have b: "100 * b \<le> y - 1901" "y - 1901 < 100 * b + 100"
    unfolding b_def by simp_all
  have c: "400 * c \<le> y - 1601" "y - 1601 < 400 * c + 400"
    unfolding c_def by simp_all
  have d: "DayFromYear y = 365 * (y - 1970) + a - b + c"
    by (simp add: DayFromYear_def a_def b_def c_def)
  have a1: "100 * (y - 1972) \<le> 400 * a" "400 * a \<le> 100 * (y - 1969)" using a by simp_all
  have b1: "4 * (y - 2000) \<le> 400 * b" "400 * b \<le> 4 * (y - 1901)" using b by simp_all
  have c1: "y - 2000 \<le> 400 * c" "400 * c \<le> y - 1601" using c by simp_all
  have e: "400 * DayFromYear y = 146000 * (y - 1970) + 400 * a - 400 * b + 400 * c"
    unfolding d by simp
  show "146097 * (y - 1970) - 506 \<le> 400 * DayFromYear y"
    unfolding e using a1(1) b1(2) c1(1) by simp
  show "400 * DayFromYear y \<le> 146097 * (y - 1970) + 589"
    unfolding e using a1(2) b1(1) c1(2) by simp
qed

lemma YearFromDay_bounds:
  "DayFromYear (YearFromDay d) \<le> d" "d < DayFromYear (YearFromDay d + 1)"
proof -
  define q where "q = (400 * d) div 146097"
  have q: "146097 * q \<le> 400 * d" "400 * d < 146097 * q + 146097"
    unfolding q_def by simp_all
  have lo: "400 * DayFromYear (1970 + q - 1) \<le> 146097 * (q - 1) + 589"
    using DayFromYear_mean(2)[of "1970 + q - 1"] by simp
  have hi: "146097 * (q + 2) - 506 \<le> 400 * DayFromYear (1970 + q + 1 + 1)"
    using DayFromYear_mean(1)[of "1970 + q + 1 + 1"] by simp
  have a: "DayFromYear (1970 + q - 1) \<le> d" using lo q by simp
  have b: "d < DayFromYear (1970 + q + 1 + 1)" using hi q by simp
  show "DayFromYear (YearFromDay d) \<le> d"
    using a by (simp add: YearFromDay_def Let_def q_def)
  show "d < DayFromYear (YearFromDay d + 1)"
    using b by (simp add: YearFromDay_def Let_def q_def)
qed

lemma DayFromYear_less: "a < b \<Longrightarrow> DayFromYear a < DayFromYear b"
  using DayFromYear_mean(2)[of a] DayFromYear_mean(1)[of b] by simp

lemma DayFromYear_le: "a \<le> b \<Longrightarrow> DayFromYear a \<le> DayFromYear b"
  using DayFromYear_less[of a b] by (cases "a = b") simp_all

lemma YearFromDay_unique:
  assumes "DayFromYear y \<le> d" "d < DayFromYear (y + 1)"
  shows "YearFromDay d = y"
proof (rule ccontr)
  assume n: "YearFromDay d \<noteq> y"
  show False
  proof (cases "YearFromDay d < y")
    case True
    then have "DayFromYear (YearFromDay d + 1) \<le> DayFromYear y"
      by (intro DayFromYear_le) simp
    then show False using YearFromDay_bounds(2)[of d] assms(1) by simp
  next
    case False
    then have "DayFromYear (y + 1) \<le> DayFromYear (YearFromDay d)"
      using n by (intro DayFromYear_le) simp
    then show False using YearFromDay_bounds(1)[of d] assms(2) by simp
  qed
qed


subsection \<open>Facts about months and dates\<close>

lemma isLeapYear_iff: "isLeapYear y = InLeapYear y"
  using m4[of y] m100[of y] DaysInYear_cases[of y]
  by (auto simp: isLeapYear_def InLeapYear_def DaysInYear_def)

lemma month_cases:
  fixes m :: int
  assumes "0 \<le> m" "m \<le> 11"
  shows "m = 0 \<or> m = 1 \<or> m = 2 \<or> m = 3 \<or> m = 4 \<or> m = 5 \<or> m = 6 \<or> m = 7 \<or> m = 8 \<or> m = 9 \<or> m = 10 \<or> m = 11"
  using assms by arith

lemma monthStart_0: "monthStart y 0 = 0"
  by (simp add: monthStart_def)

lemma monthStart_12: "monthStart y 12 = DaysInYear y"
  using DaysInYear_cases[of y] by (auto simp: monthStart_def InLeapYear_def)

lemma monthStart_step:
  assumes "0 \<le> m" "m \<le> 11"
  shows "monthStart y (m + 1) = monthStart y m + daysInMonth y m"
  using month_cases[OF assms]
  by (auto simp: monthStart_def daysInMonth_def isLeapYear_iff)

lemma daysInMonth_range: "28 \<le> daysInMonth y m" "daysInMonth y m \<le> 31"
proof -
  have "0 \<le> (m mod 12 mod 7) mod 2" "(m mod 12 mod 7) mod 2 < 2" by simp_all
  then show "28 \<le> daysInMonth y m" "daysInMonth y m \<le> 31"
    by (auto simp: daysInMonth_def Let_def)
qed

lemma DayWithinYear_range: "0 \<le> DayWithinYear d" "DayWithinYear d < DaysInYear (YearFromDay d)"
  using YearFromDay_bounds[of d] DayFromYear_step[of "YearFromDay d"]
  by (simp_all add: DayWithinYear_def)

lemma MonthFromDay_range: "0 \<le> MonthFromDay d" "MonthFromDay d \<le> 11"
  by (simp_all add: MonthFromDay_def Let_def)

lemma MonthFromDay_bracket:
  "monthStart (YearFromDay d) (MonthFromDay d) \<le> DayWithinYear d"
  "DayWithinYear d < monthStart (YearFromDay d) (MonthFromDay d + 1)"
proof -
  have w: "0 \<le> DayWithinYear d" "DayWithinYear d < monthStart (YearFromDay d) 12"
    using DayWithinYear_range[of d] by (simp_all add: monthStart_12)
  show "monthStart (YearFromDay d) (MonthFromDay d) \<le> DayWithinYear d"
    using w(1) by (simp add: MonthFromDay_def Let_def monthStart_0)
  show "DayWithinYear d < monthStart (YearFromDay d) (MonthFromDay d + 1)"
    using w(2) by (simp add: MonthFromDay_def Let_def)
qed

lemma DateFromDay_range: "1 \<le> DateFromDay d" "DateFromDay d \<le> daysInMonth (YearFromDay d) (MonthFromDay d)"
  using MonthFromDay_bracket[of d] monthStart_step[OF MonthFromDay_range[of d], of "YearFromDay d"]
  by (simp_all add: DateFromDay_def)

lemma monthStart_nonneg: "0 \<le> monthStart y m"
  by (simp add: monthStart_def Let_def)

lemma monthStart_le_year: "monthStart y m \<le> DaysInYear y"
  using DaysInYear_cases[of y] by (auto simp: monthStart_def Let_def InLeapYear_def)

lemma Year_of_month_day:
  assumes "0 \<le> m" "m \<le> 11" "monthStart y m \<le> w" "w < monthStart y (m + 1)"
  shows "YearFromDay (DayFromYear y + w) = y"
proof (rule YearFromDay_unique)
  show "DayFromYear y \<le> DayFromYear y + w"
    using monthStart_nonneg[of y m] assms(3) by simp
  show "DayFromYear y + w < DayFromYear (y + 1)"
    using monthStart_le_year[of y "m + 1"] assms(4) by (simp add: DayFromYear_step)
qed

lemma monthStart_table:
  fixes y :: int
  defines "l \<equiv> (if InLeapYear y then 1 else 0 :: int)"
  shows "monthStart y 0 = 0" "monthStart y 1 = 31" "monthStart y 2 = 59 + l"
    "monthStart y 3 = 90 + l" "monthStart y 4 = 120 + l" "monthStart y 5 = 151 + l"
    "monthStart y 6 = 181 + l" "monthStart y 7 = 212 + l" "monthStart y 8 = 243 + l"
    "monthStart y 9 = 273 + l" "monthStart y 10 = 304 + l" "monthStart y 11 = 334 + l"
    "monthStart y 12 = 365 + l" "0 \<le> l" "l \<le> 1"
  by (simp_all add: monthStart_def l_def)

lemma Month_of_month_day:
  assumes "0 \<le> m" "m \<le> 11" "monthStart y m \<le> w" "w < monthStart y (m + 1)"
  shows "MonthFromDay (DayFromYear y + w) = m"
proof -
  have y: "YearFromDay (DayFromYear y + w) = y" by (rule Year_of_month_day[OF assms])
  have w: "DayWithinYear (DayFromYear y + w) = w" by (simp add: DayWithinYear_def y)
  note t = monthStart_table[of y]
  have e: "MonthFromDay (DayFromYear y + w) =
     (if w < monthStart y 1 then 0
         else if w < monthStart y 2 then 1
         else if w < monthStart y 3 then 2
         else if w < monthStart y 4 then 3
         else if w < monthStart y 5 then 4
         else if w < monthStart y 6 then 5
         else if w < monthStart y 7 then 6
         else if w < monthStart y 8 then 7
         else if w < monthStart y 9 then 8
         else if w < monthStart y 10 then 9
         else if w < monthStart y 11 then 10
         else 11)"
    unfolding MonthFromDay_def y w Let_def ..
  from month_cases[OF assms(1,2)] show ?thesis
  proof (elim disjE)
    assume mk: "m = 0"
    have lo: "monthStart y 0 \<le> w" and hi: "w < monthStart y 1"
      using assms(3,4) unfolding mk by simp_all
    show ?thesis
      using t(14,15) lo hi unfolding e mk t by simp
  next
    assume mk: "m = 1"
    have lo: "monthStart y 1 \<le> w" and hi: "w < monthStart y 2"
      using assms(3,4) unfolding mk by simp_all
    show ?thesis
      using t(14,15) lo hi unfolding e mk t by simp
  next
    assume mk: "m = 2"
    have lo: "monthStart y 2 \<le> w" and hi: "w < monthStart y 3"
      using assms(3,4) unfolding mk by simp_all
    show ?thesis
      using t(14,15) lo hi unfolding e mk t by simp
  next
    assume mk: "m = 3"
    have lo: "monthStart y 3 \<le> w" and hi: "w < monthStart y 4"
      using assms(3,4) unfolding mk by simp_all
    show ?thesis
      using t(14,15) lo hi unfolding e mk t by simp
  next
    assume mk: "m = 4"
    have lo: "monthStart y 4 \<le> w" and hi: "w < monthStart y 5"
      using assms(3,4) unfolding mk by simp_all
    show ?thesis
      using t(14,15) lo hi unfolding e mk t by simp
  next
    assume mk: "m = 5"
    have lo: "monthStart y 5 \<le> w" and hi: "w < monthStart y 6"
      using assms(3,4) unfolding mk by simp_all
    show ?thesis
      using t(14,15) lo hi unfolding e mk t by simp
  next
    assume mk: "m = 6"
    have lo: "monthStart y 6 \<le> w" and hi: "w < monthStart y 7"
      using assms(3,4) unfolding mk by simp_all
    show ?thesis
      using t(14,15) lo hi unfolding e mk t by simp
  next
    assume mk: "m = 7"
    have lo: "monthStart y 7 \<le> w" and hi: "w < monthStart y 8"
      using assms(3,4) unfolding mk by simp_all
    show ?thesis
      using t(14,15) lo hi unfolding e mk t by simp
  next
    assume mk: "m = 8"
    have lo: "monthStart y 8 \<le> w" and hi: "w < monthStart y 9"
      using assms(3,4) unfolding mk by simp_all
    show ?thesis
      using t(14,15) lo hi unfolding e mk t by simp
  next
    assume mk: "m = 9"
    have lo: "monthStart y 9 \<le> w" and hi: "w < monthStart y 10"
      using assms(3,4) unfolding mk by simp_all
    show ?thesis
      using t(14,15) lo hi unfolding e mk t by simp
  next
    assume mk: "m = 10"
    have lo: "monthStart y 10 \<le> w" and hi: "w < monthStart y 11"
      using assms(3,4) unfolding mk by simp_all
    show ?thesis
      using t(14,15) lo hi unfolding e mk t by simp
  next
    assume mk: "m = 11"
    have lo: "monthStart y 11 \<le> w" and hi: "w < monthStart y 12"
      using assms(3,4) unfolding mk by simp_all
    show ?thesis
      using t(14,15) lo hi unfolding e mk t by simp
  qed
qed

lemma Date_of_month_day:
  assumes "0 \<le> m" "m \<le> 11" "monthStart y m \<le> w" "w < monthStart y (m + 1)"
  shows "DateFromDay (DayFromYear y + w) = w - monthStart y m + 1"
  by (simp add: DateFromDay_def DayWithinYear_def Year_of_month_day[OF assms] Month_of_month_day[OF assms])

lemma MakeDay_in_year:
  assumes "0 \<le> m" "m \<le> 11"
  shows "MakeDay y m dt = DayFromYear y + monthStart y m + dt - 1"
  using assms by (simp add: MakeDay_def Let_def)

lemma MakeDay_carry: "MakeDay y (m + 12) dt = MakeDay (y + 1) m dt"
proof -
  have "(m + 12) div 12 = m div 12 + 1" "(m + 12) mod 12 = m mod 12" by simp_all
  moreover have "y + (m div 12 + 1) = y + 1 + m div 12" by simp
  ultimately show ?thesis by (simp only: MakeDay_def Let_def)
qed

lemma MakeDay_next_month:
  assumes "0 \<le> m" "m \<le> 11"
  shows "MakeDay y (m + 1) 1 = DayFromYear y + monthStart y (m + 1)"
proof (cases "m = 11")
  case True
  then show ?thesis by (simp add: MakeDay_def Let_def DayFromYear_step monthStart_12 monthStart_0)
next
  case False
  then have "0 \<le> m + 1" "m + 1 \<le> 11" using assms by simp_all
  from MakeDay_in_year[OF this] show ?thesis by simp
qed

lemma MakeDay_fields:
  "MakeDay (YearFromDay d) (MonthFromDay d) (DateFromDay d + k) = d + k"
  using MonthFromDay_range[of d]
  by (simp add: MakeDay_in_year DateFromDay_def DayWithinYear_def)

lemma MakeDay_next_month_date:
  assumes "0 \<le> m" "m \<le> 11"
  shows "MakeDay y (m + 1) dt = DayFromYear y + monthStart y (m + 1) + dt - 1"
  using MakeDay_next_month[OF assms, of y] by (simp add: MakeDay_def Let_def)

section \<open>Moments\<close>

text \<open>
  A moment in UTC-offset mode keeps the time value of its \<^verbatim>\<open>Date\<close> shifted by the offset
  (\<open>m_d\<close>, in milliseconds) and the offset itself (\<open>m_offset\<close>, in minutes); its getters read
  the UTC fields of the shifted \<^verbatim>\<open>Date\<close>, and \<^verbatim>\<open>valueOf\<close> undoes the shift.
\<close>

record moment =
  m_d :: int
  m_offset :: int

text \<open>
  The time value of a \<^verbatim>\<open>Date\<close> is at most \<open>maxDate\<close> milliseconds in absolute value; a
  \<^verbatim>\<open>Date\<close> set beyond that is invalid, and every field read from it is \<^verbatim>\<open>NaN\<close>. The moments
  of this model have no invalid \<^verbatim>\<open>Date\<close>: \<open>m_d\<close> is the time value the code computes as long
  as it is within the limit, and the model follows the code on the time stamps for which
  every \<^verbatim>\<open>Date\<close> the code computes is within the limit.
\<close>

definition maxDate :: int where
  "maxDate = 8640000000000000"

definition moment_unix :: "int \<Rightarrow> moment" where
  "moment_unix input = \<lparr>m_d = input * 1000, m_offset = 0\<rparr>"

text \<open>\<^verbatim>\<open>utcOffset(input)\<close>: an input below 16 in absolute value is a number of hours.\<close>

definition utcOffset :: "int \<Rightarrow> moment \<Rightarrow> moment" where
  "utcOffset input mom =
     (let input' = (if \<bar>input\<bar> < 16 then input * 60 else input)
      in \<lparr>m_d = m_d mom + (input' - m_offset mom) * 60000, m_offset = input'\<rparr>)"

definition valueOf :: "moment \<Rightarrow> int" where
  "valueOf mom = m_d mom - m_offset mom * 60000"

definition unix :: "moment \<Rightarrow> int" where
  "unix mom = valueOf mom div 1000"

definition get_year :: "moment \<Rightarrow> int" where
  "get_year mom = YearFromDay (Day (m_d mom))"

definition get_month :: "moment \<Rightarrow> int" where
  "get_month mom = MonthFromDay (Day (m_d mom))"

definition get_date :: "moment \<Rightarrow> int" where
  "get_date mom = DateFromDay (Day (m_d mom))"

text \<open>
  \<^verbatim>\<open>startOf(unit)\<close> sets the \<^verbatim>\<open>Date\<close> to the first millisecond of the year, month or day of
  the moment, built from its fields as \<^verbatim>\<open>Date.UTC\<close> does; \<^verbatim>\<open>endOf(unit)\<close> sets it to the
  millisecond before the start of the next one.
\<close>

definition startOf_year :: "moment \<Rightarrow> moment" where
  "startOf_year mom = mom\<lparr>m_d := msPerDay * MakeDay (get_year mom) 0 1\<rparr>"

definition startOf_month :: "moment \<Rightarrow> moment" where
  "startOf_month mom = mom\<lparr>m_d := msPerDay * MakeDay (get_year mom) (get_month mom) 1\<rparr>"

definition startOf_date :: "moment \<Rightarrow> moment" where
  "startOf_date mom =
     mom\<lparr>m_d := msPerDay * MakeDay (get_year mom) (get_month mom) (get_date mom)\<rparr>"

definition endOf_year :: "moment \<Rightarrow> moment" where
  "endOf_year mom = mom\<lparr>m_d := msPerDay * MakeDay (get_year mom + 1) 0 1 - 1\<rparr>"

definition endOf_month :: "moment \<Rightarrow> moment" where
  "endOf_month mom = mom\<lparr>m_d := msPerDay * MakeDay (get_year mom) (get_month mom + 1) 1 - 1\<rparr>"

definition endOf_date :: "moment \<Rightarrow> moment" where
  "endOf_date mom =
     mom\<lparr>m_d := msPerDay * MakeDay (get_year mom) (get_month mom) (get_date mom + 1) - 1\<rparr>"

text \<open>
  \<^verbatim>\<open>add\<close> goes through the setters of the \<^verbatim>\<open>Date\<close>: months (and years, as twelve months
  each) through \<^verbatim>\<open>setMonth\<close>, which keeps the date but not beyond the end of the target
  month, and days through \<^verbatim>\<open>setUTCDate\<close>.
\<close>

definition setMonth :: "moment \<Rightarrow> int \<Rightarrow> moment" where
  "setMonth mom v =
     (let dayOfMonth = min (get_date mom) (daysInMonth (get_year mom) v)
      in mom\<lparr>m_d := msPerDay * MakeDay (get_year mom) v dayOfMonth + TimeWithinDay (m_d mom)\<rparr>)"

definition add_months :: "int \<Rightarrow> moment \<Rightarrow> moment" where
  "add_months n mom = setMonth mom (get_month mom + n)"

definition add_years :: "int \<Rightarrow> moment \<Rightarrow> moment" where
  "add_years n mom = add_months (12 * n) mom"

definition add_days :: "int \<Rightarrow> moment \<Rightarrow> moment" where
  "add_days n mom =
     mom\<lparr>m_d := msPerDay * MakeDay (get_year mom) (get_month mom) (get_date mom + n)
                    + TimeWithinDay (m_d mom)\<rparr>"

subsection \<open>Formatting\<close>

definition digit_char :: "nat \<Rightarrow> char" where
  "digit_char n = ''0123456789'' ! n"

fun string_of_nat :: "nat \<Rightarrow> string" where
  "string_of_nat n =
     (if n < 10 then [digit_char n] else string_of_nat (n div 10) @ [digit_char (n mod 10)])"

declare string_of_nat.simps [simp del]

definition zeroFill :: "int \<Rightarrow> nat \<Rightarrow> string" where
  "zeroFill number targetLength =
     (let absNumber = string_of_nat (nat \<bar>number\<bar>);
          zerosToFill = targetLength - length absNumber
      in (if 0 \<le> number then [] else ''-'') @ replicate zerosToFill CHR ''0'' @ absNumber)"

datatype format_token = YYYY | MM | DD | Lit string

fun format_part :: "moment \<Rightarrow> format_token \<Rightarrow> string" where
  "format_part mom YYYY = zeroFill (get_year mom) 4"
| "format_part mom MM = zeroFill (get_month mom + 1) 2"
| "format_part mom DD = zeroFill (get_date mom) 2"
| "format_part mom (Lit s) = s"

definition format :: "moment \<Rightarrow> format_token list \<Rightarrow> string" where
  "format mom fmt = concat (map (format_part mom) fmt)"


subsection \<open>Moments move forward\<close>

lemma m_d_split: "m_d mom = msPerDay * Day (m_d mom) + TimeWithinDay (m_d mom)"
  by (simp add: Day_def TimeWithinDay_def)

lemma TimeWithinDay_range: "0 \<le> TimeWithinDay t" "TimeWithinDay t < msPerDay"
  by (simp_all add: TimeWithinDay_def msPerDay_def)

lemma Day_make: "0 \<le> r \<Longrightarrow> r < msPerDay \<Longrightarrow> Day (msPerDay * n + r) = n"
  unfolding Day_def by (rule int_div_pos_eq[of _ _ n r]) simp_all

lemma add_days_m_d: "m_d (add_days n mom) = m_d mom + msPerDay * n"
proof -
  have "m_d (add_days n mom) = msPerDay * (Day (m_d mom) + n) + TimeWithinDay (m_d mom)"
    by (simp add: add_days_def get_year_def get_month_def get_date_def MakeDay_fields)
  also have "\<dots> = (msPerDay * Day (m_d mom) + TimeWithinDay (m_d mom)) + msPerDay * n"
    by (simp add: algebra_simps)
  finally show ?thesis using m_d_split[of mom] by simp
qed

lemma add_days_offset: "m_offset (add_days n mom) = m_offset mom"
  by (simp add: add_days_def)

lemma unix_add_days: "unix (add_days 1 mom) = unix mom + 86400"
proof -
  have "valueOf (add_days 1 mom) = valueOf mom + 1000 * 86400"
    by (simp add: valueOf_def add_days_m_d add_days_offset msPerDay_def)
  then show ?thesis by (simp add: unix_def)
qed

text \<open>Where \<^verbatim>\<open>setMonth\<close> lands: on a day of the target month, at the same time of day.\<close>

lemma setMonth_day:
  "Day (m_d (setMonth mom v)) =
     MakeDay (get_year mom) v (min (get_date mom) (daysInMonth (get_year mom) v))"
  unfolding setMonth_def Let_def
  using TimeWithinDay_range[of "m_d mom"] by (simp add: Day_make)

lemma Day_whole: "Day (msPerDay * n) = n"
  using Day_make[of 0 n] by (simp add: msPerDay_def)

lemma clamp_date:
  "1 \<le> min (get_date mom) (daysInMonth y v)"
  "min (get_date mom) (daysInMonth y v) \<le> daysInMonth y v"
  using DateFromDay_range(1)[of "Day (m_d mom)"] daysInMonth_range(1)[of y v]
  by (simp_all add: get_date_def)

lemma before_next_month:
  "Day (m_d mom) < DayFromYear (get_year mom) + monthStart (get_year mom) (get_month mom + 1)"
  using MonthFromDay_bracket(2)[of "Day (m_d mom)"]
  by (simp add: get_year_def get_month_def DayWithinYear_def)

lemma before_next_year: "Day (m_d mom) < DayFromYear (get_year mom + 1)"
  using YearFromDay_bounds(2)[of "Day (m_d mom)"] by (simp add: get_year_def)

lemma get_month_range: "0 \<le> get_month mom" "get_month mom \<le> 11"
  by (simp_all add: get_month_def MonthFromDay_range)

lemma daysInMonth_carry: "daysInMonth y (m + 12) = daysInMonth (y + 1) m"
proof -
  have a: "(m + 12) mod 12 = m mod 12" by simp
  have "m + 12 - m mod 12 = (m - m mod 12) + 12" by simp
  then have b: "(m + 12 - m mod 12) div 12 = (m - m mod 12) div 12 + 1" by simp
  have c: "y + ((m - m mod 12) div 12 + 1) = y + 1 + (m - m mod 12) div 12" by simp
  show ?thesis by (simp only: daysInMonth_def Let_def a b c)
qed

lemma daysInMonth_step:
  "0 \<le> m \<Longrightarrow> m \<le> 11 \<Longrightarrow> daysInMonth y m = monthStart y (m + 1) - monthStart y m"
  by (simp add: monthStart_step)

text \<open>A day in month \<open>m\<close> of year \<open>y\<close>, given by its date.\<close>

lemma fields_of_MakeDay:
  assumes "0 \<le> m" "m \<le> 11" "1 \<le> dt" "dt \<le> daysInMonth y m"
  shows "YearFromDay (MakeDay y m dt) = y" "MonthFromDay (MakeDay y m dt) = m"
    "DateFromDay (MakeDay y m dt) = dt"
proof -
  have e: "MakeDay y m dt = DayFromYear y + (monthStart y m + dt - 1)"
    using assms(1,2) by (simp add: MakeDay_in_year)
  have lo: "monthStart y m \<le> monthStart y m + dt - 1" using assms(3) by simp
  have hi: "monthStart y m + dt - 1 < monthStart y (m + 1)"
    using assms(4) by (simp add: monthStart_step[OF assms(1,2)])
  show "YearFromDay (MakeDay y m dt) = y"
    unfolding e by (rule Year_of_month_day[OF assms(1,2) lo hi])
  show "MonthFromDay (MakeDay y m dt) = m"
    unfolding e by (rule Month_of_month_day[OF assms(1,2) lo hi])
  show "DateFromDay (MakeDay y m dt) = dt"
    unfolding e using Date_of_month_day[OF assms(1,2) lo hi] by simp
qed

lemma unix_forward_same_time:
  assumes "Day (m_d a) < Day (m_d b)" "TimeWithinDay (m_d b) = TimeWithinDay (m_d a)"
    "m_offset b = m_offset a"
  shows "unix a < unix b"
proof -
  have "m_d a + msPerDay \<le> m_d b"
    using m_d_split[of a] m_d_split[of b] assms(1,2)
      mult_left_mono[of "Day (m_d a) + 1" "Day (m_d b)" msPerDay]
    by (simp add: algebra_simps msPerDay_def)
  then have "valueOf a + 1000 * 86400 \<le> valueOf b"
    by (simp add: valueOf_def assms(3) msPerDay_def)
  then have "(valueOf a + 1000 * 86400) div 1000 \<le> valueOf b div 1000"
    by (rule zdiv_mono1) simp
  then show ?thesis by (simp add: unix_def)
qed

lemma unix_forward_whole_day:
  assumes "Day (m_d a) < n" "m_d b = msPerDay * n" "m_offset b = m_offset a"
  shows "unix a < unix b"
proof -
  have "m_d a < msPerDay * (Day (m_d a) + 1)"
    using m_d_split[of a] TimeWithinDay_range(2)[of "m_d a"] by (simp add: algebra_simps)
  also have "\<dots> \<le> msPerDay * n"
    using assms(1) by (intro mult_left_mono) (simp_all add: msPerDay_def)
  finally have "valueOf a < valueOf b" by (simp add: valueOf_def assms(2,3))
  moreover have "valueOf b = 1000 * (86400 * n - 60 * m_offset a)"
    by (simp add: valueOf_def assms(2,3) msPerDay_def)
  ultimately have "valueOf a < 1000 * (86400 * n - 60 * m_offset a)" by simp
  moreover have "1000 * (valueOf a div 1000) \<le> valueOf a"
    using mult_div_mod_eq[of 1000 "valueOf a"] pos_mod_sign[of 1000 "valueOf a"] by simp
  ultimately have "valueOf a div 1000 < 86400 * n - 60 * m_offset a"
    by simp
  moreover have "valueOf b div 1000 = 86400 * n - 60 * m_offset a"
    by (simp add: \<open>valueOf b = 1000 * (86400 * n - 60 * m_offset a)\<close>)
  ultimately show ?thesis by (simp add: unix_def)
qed

lemma setMonth_keeps:
  "TimeWithinDay (m_d (setMonth mom v)) = TimeWithinDay (m_d mom)"
  "m_offset (setMonth mom v) = m_offset mom"
proof -
  have "(msPerDay * n + t mod msPerDay) mod msPerDay = t mod msPerDay" for n t :: int
    by simp
  then show "TimeWithinDay (m_d (setMonth mom v)) = TimeWithinDay (m_d mom)"
    by (simp add: setMonth_def Let_def TimeWithinDay_def)
  show "m_offset (setMonth mom v) = m_offset mom"
    by (simp add: setMonth_def Let_def)
qed

lemma add_months_1_day:
  "Day (m_d (add_months 1 mom)) =
     DayFromYear (get_year mom) + monthStart (get_year mom) (get_month mom + 1)
       + min (get_date mom) (daysInMonth (get_year mom) (get_month mom + 1)) - 1"
  unfolding add_months_def setMonth_day
  by (rule MakeDay_next_month_date[OF get_month_range])

lemma add_years_1_day:
  "Day (m_d (add_years 1 mom)) =
     MakeDay (get_year mom + 1) (get_month mom)
       (min (get_date mom) (daysInMonth (get_year mom + 1) (get_month mom)))"
  unfolding add_years_def add_months_def setMonth_day
  by (simp add: MakeDay_carry daysInMonth_carry)

lemma unix_add_months: "unix mom < unix (add_months 1 mom)"
proof (rule unix_forward_same_time)
  show "Day (m_d mom) < Day (m_d (add_months 1 mom))"
    unfolding add_months_1_day
    using before_next_month[of mom]
      clamp_date(1)[of mom "get_year mom" "get_month mom + 1"]
    by linarith
qed (simp_all add: add_months_def setMonth_keeps)

lemma unix_add_years: "unix mom < unix (add_years 1 mom)"
proof (rule unix_forward_same_time)
  have "DayFromYear (get_year mom + 1) \<le> Day (m_d (add_years 1 mom))"
    unfolding add_years_1_day MakeDay_in_year[OF get_month_range]
    using clamp_date(1)[of mom "get_year mom + 1" "get_month mom"]
      monthStart_nonneg[of "get_year mom + 1" "get_month mom"]
    by linarith
  then show "Day (m_d mom) < Day (m_d (add_years 1 mom))"
    using before_next_year[of mom] by simp
qed (simp_all add: add_years_def add_months_def setMonth_keeps)

lemma startOf_year_add_years:
  "startOf_year (add_years 1 mom) = mom\<lparr>m_d := msPerDay * DayFromYear (get_year mom + 1)\<rparr>"
proof -
  have "get_year (add_years 1 mom) = get_year mom + 1"
    unfolding get_year_def[of "add_years 1 mom"] add_years_1_day
    by (rule fields_of_MakeDay(1)[OF get_month_range clamp_date])
  moreover have "MakeDay y 0 1 = DayFromYear y" for y
    by (simp add: MakeDay_in_year monthStart_0)
  ultimately show ?thesis
    by (simp add: startOf_year_def add_years_def add_months_def setMonth_def Let_def)
qed

lemma startOf_month_add_months:
  "startOf_month (add_months 1 mom) =
     mom\<lparr>m_d := msPerDay * (DayFromYear (get_year mom) + monthStart (get_year mom) (get_month mom + 1))\<rparr>"
proof -
  define y where "y = get_year mom"
  define m where "m = get_month mom"
  define dt where "dt = min (get_date mom) (daysInMonth y (m + 1))"
  have m: "0 \<le> m" "m \<le> 11" unfolding m_def by (rule get_month_range)+
  have dt: "1 \<le> dt" "dt \<le> daysInMonth y (m + 1)" unfolding dt_def by (rule clamp_date)+
  have day: "Day (m_d (add_months 1 mom)) = MakeDay y (m + 1) dt"
    by (simp add: add_months_def setMonth_day y_def m_def dt_def)
  have "MakeDay (get_year (add_months 1 mom)) (get_month (add_months 1 mom)) 1
          = DayFromYear y + monthStart y (m + 1)"
  proof (cases "m = 11")
    case True
    have c: "MakeDay y (m + 1) dt = MakeDay (y + 1) 0 dt"
      using MakeDay_carry[of y 0 dt] True by simp
    have d: "dt \<le> daysInMonth (y + 1) 0"
      using dt(2) daysInMonth_carry[of y 0] True by simp
    have "get_year (add_months 1 mom) = y + 1" "get_month (add_months 1 mom) = 0"
      unfolding get_year_def get_month_def day c
      using fields_of_MakeDay(1,2)[OF _ _ dt(1) d] by simp_all
    then show ?thesis
      using True by (simp add: MakeDay_in_year monthStart_0 DayFromYear_step monthStart_12)
  next
    case False
    then have m1: "0 \<le> m + 1" "m + 1 \<le> 11" using m by simp_all
    have "get_year (add_months 1 mom) = y" "get_month (add_months 1 mom) = m + 1"
      unfolding get_year_def get_month_def day
      using fields_of_MakeDay(1,2)[OF m1 dt] by simp_all
    then show ?thesis by (simp add: MakeDay_in_year[OF m1])
  qed
  then show ?thesis
    by (simp add: startOf_month_def add_months_def setMonth_def Let_def y_def m_def)
qed

lemma unix_next_year: "unix mom < unix (startOf_year (add_years 1 mom))"
  by (rule unix_forward_whole_day[OF before_next_year[of mom]])
     (simp_all add: startOf_year_add_years)

lemma unix_next_month: "unix mom < unix (startOf_month (add_months 1 mom))"
  by (rule unix_forward_whole_day[OF before_next_month[of mom]])
     (simp_all add: startOf_month_add_months)

section \<open>Index names of a time range\<close>

text \<open>
  The body of each \<^verbatim>\<open>while\<close> loop of \<^verbatim>\<open>indexesByTimeRange\<close> is a step: the suffix it pushes
  and the cursor it leaves (\<^verbatim>\<open>clone()\<close> keeps the cursor as it is, \<^verbatim>\<open>add\<close> and
  \<^verbatim>\<open>startOf\<close> change it). The loop repeats the step while the second of the cursor is not
  after the second of the end, and returns the suffixes pushed.
\<close>

definition yearly_step :: "moment \<Rightarrow> string \<times> moment" where
  "yearly_step cursor = (format cursor [YYYY], add_years 1 cursor)"

definition monthly_step :: "bool \<Rightarrow> moment \<Rightarrow> moment \<Rightarrow> string \<times> moment" where
  "monthly_step enableGroupSelect endAtDate cursor =
     (if enableGroupSelect \<and> get_month cursor = 0
         \<and> unix (endOf_year cursor) \<le> unix endAtDate
      then (format cursor [YYYY, Lit ''.*''], startOf_year (add_years 1 cursor))
      else (format cursor [YYYY, Lit ''.'', MM], add_months 1 cursor))"

definition daily_step :: "bool \<Rightarrow> moment \<Rightarrow> moment \<Rightarrow> string \<times> moment" where
  "daily_step enableGroupSelect endAtDate cursor =
     (if enableGroupSelect \<and> get_month cursor = 0 \<and> get_date cursor = 1
         \<and> unix (endOf_year cursor) \<le> unix endAtDate
      then (format cursor [YYYY, Lit ''.*''], startOf_year (add_years 1 cursor))
      else if enableGroupSelect \<and> get_date cursor = 1
         \<and> unix (endOf_month cursor) \<le> unix endAtDate
      then (format cursor [YYYY, Lit ''.'', MM, Lit ''.*''], startOf_month (add_months 1 cursor))
      else (format cursor [YYYY, Lit ''.'', MM, Lit ''.'', DD], add_days 1 cursor))"

lemma yearly_step_forward: "unix cursor < unix (snd (yearly_step cursor))"
  by (simp add: yearly_step_def unix_add_years)

lemma monthly_step_forward: "unix cursor < unix (snd (monthly_step g e cursor))"
  by (simp add: monthly_step_def unix_next_year unix_add_months)

lemma daily_step_forward: "unix cursor < unix (snd (daily_step g e cursor))"
  by (simp add: daily_step_def unix_next_year unix_next_month unix_add_days)

function yearly_loop :: "moment \<Rightarrow> moment \<Rightarrow> string list \<Rightarrow> string list" where
  "yearly_loop endAtDate cursor suffexes =
     (if unix cursor \<le> unix endAtDate
      then yearly_loop endAtDate (snd (yearly_step cursor)) (suffexes @ [fst (yearly_step cursor)])
      else suffexes)"
  by pat_completeness auto
termination
proof (relation "measure (\<lambda>(e, c, s). nat (unix e + 1 - unix c))")
  fix endAtDate cursor :: moment and suffexes :: "string list"
  assume "unix cursor \<le> unix endAtDate"
  then show "((endAtDate, snd (yearly_step cursor), suffexes @ [fst (yearly_step cursor)]),
              (endAtDate, cursor, suffexes)) \<in> measure (\<lambda>(e, c, s). nat (unix e + 1 - unix c))"
    using yearly_step_forward[of cursor] by simp
qed simp

function monthly_loop :: "bool \<Rightarrow> moment \<Rightarrow> moment \<Rightarrow> string list \<Rightarrow> string list" where
  "monthly_loop enableGroupSelect endAtDate cursor suffexes =
     (if unix cursor \<le> unix endAtDate
      then monthly_loop enableGroupSelect endAtDate
             (snd (monthly_step enableGroupSelect endAtDate cursor))
             (suffexes @ [fst (monthly_step enableGroupSelect endAtDate cursor)])
      else suffexes)"
  by pat_completeness auto
termination
proof (relation "measure (\<lambda>(g, e, c, s). nat (unix e + 1 - unix c))")
  fix enableGroupSelect and endAtDate cursor :: moment and suffexes :: "string list"
  assume "unix cursor \<le> unix endAtDate"
  then show "((enableGroupSelect, endAtDate, snd (monthly_step enableGroupSelect endAtDate cursor),
               suffexes @ [fst (monthly_step enableGroupSelect endAtDate cursor)]),
              (enableGroupSelect, endAtDate, cursor, suffexes))
             \<in> measure (\<lambda>(g, e, c, s). nat (unix e + 1 - unix c))"
    using monthly_step_forward[of cursor enableGroupSelect endAtDate] by simp
qed simp

function daily_loop :: "bool \<Rightarrow> moment \<Rightarrow> moment \<Rightarrow> string list \<Rightarrow> string list" where
  "daily_loop enableGroupSelect endAtDate cursor suffexes =
     (if unix cursor \<le> unix endAtDate
      then daily_loop enableGroupSelect endAtDate
             (snd (daily_step enableGroupSelect endAtDate cursor))
             (suffexes @ [fst (daily_step enableGroupSelect endAtDate cursor)])
      else suffexes)"
  by pat_completeness auto
termination
proof (relation "measure (\<lambda>(g, e, c, s). nat (unix e + 1 - unix c))")
  fix enableGroupSelect and endAtDate cursor :: moment and suffexes :: "string list"
  assume "unix cursor \<le> unix endAtDate"
  then show "((enableGroupSelect, endAtDate, snd (daily_step enableGroupSelect endAtDate cursor),
               suffexes @ [fst (daily_step enableGroupSelect endAtDate cursor)]),
              (enableGroupSelect, endAtDate, cursor, suffexes))
             \<in> measure (\<lambda>(g, e, c, s). nat (unix e + 1 - unix c))"
    using daily_step_forward[of cursor enableGroupSelect endAtDate] by simp
qed simp

declare yearly_loop.simps [simp del] monthly_loop.simps [simp del] daily_loop.simps [simp del]

text \<open>\<^verbatim>\<open>[...new Set(xs)]\<close>: the elements of \<open>xs\<close> in the order of their first occurrence.\<close>

fun Set_add :: "'a list \<Rightarrow> 'a \<Rightarrow> 'a list" where
  "Set_add s x = (if x \<in> set s then s else s @ [x])"

definition new_Set :: "'a list \<Rightarrow> 'a list" where
  "new_Set xs = foldl Set_add [] xs"

datatype PeriodType = YEARLY | MONTHLY | DAILY | OtherPeriodType string

datatype error = InvalidTimeRangeError | RangeError | Error string

text \<open>
  \<^verbatim>\<open>indexesByTimeRange(prefix, startAt, endAt, splitPeriodType, enableGroupSelect)\<close>. The
  range is checked first; then the branch of the partitioning period fills \<^verbatim>\<open>suffexes\<close>, and
  a period that is none of the three throws a \<^verbatim>\<open>RangeError\<close>. A thrown error is the \<open>Inl\<close>
  result.
\<close>

definition indexesByTimeRange ::
  "string \<Rightarrow> int \<Rightarrow> int \<Rightarrow> PeriodType \<Rightarrow> bool \<Rightarrow> error + string list" where
  "indexesByTimeRange prefix startAt endAt splitPeriodType enableGroupSelect =
     (if endAt < startAt then Inl InvalidTimeRangeError
      else
        let cursor = utcOffset 9 (moment_unix startAt);
            endAtDate = utcOffset 9 (moment_unix endAt)
        in case splitPeriodType of
             YEARLY \<Rightarrow>
               Inr (map (\<lambda>v. prefix @ v)
                     (new_Set (yearly_loop (endOf_year endAtDate) (startOf_year cursor) [])))
           | MONTHLY \<Rightarrow>
               Inr (map (\<lambda>v. prefix @ v)
                     (new_Set (monthly_loop enableGroupSelect (endOf_month endAtDate)
                                 (startOf_month cursor) [])))
           | DAILY \<Rightarrow>
               Inr (map (\<lambda>v. prefix @ v)
                     (new_Set (daily_loop enableGroupSelect (endOf_date endAtDate)
                                 (startOf_date cursor) [])))
           | OtherPeriodType _ \<Rightarrow> Inl RangeError)"

section \<open>Errors of the time range\<close>

text \<open>
  C7. When \<open>endAt < startAt\<close>, \<^verbatim>\<open>indexesByTimeRange\<close> fails with \<^verbatim>\<open>InvalidTimeRangeError\<close>
  for every prefix, every pair of time stamps and every period type, one of the three
  supported ones or any other, with or without group selection: the result is the error and
  no list of index names, and a period type that is not supported does not turn it into a
  \<^verbatim>\<open>RangeError\<close>, since the range is checked before the period type is looked at.
\<close>

theorem invalid_range_fails:
  "endAt < startAt \<Longrightarrow>
     indexesByTimeRange prefix startAt endAt splitPeriodType enableGroupSelect
       = Inl InvalidTimeRangeError"
  by (simp add: indexesByTimeRange_def)

theorem invalid_range_fails_witness:
  "(5 :: int) < 10 \<and>
   indexesByTimeRange ''test_'' 10 5 (OtherPeriodType ''HOURLY'') True = Inl InvalidTimeRangeError \<and>
   indexesByTimeRange ''test_'' 10 5 DAILY False = Inl InvalidTimeRangeError"
  using invalid_range_fails[of 5 10 "''test_''" "OtherPeriodType ''HOURLY''" True]
    invalid_range_fails[of 5 10 "''test_''" DAILY False]
  by simp

text \<open>
  C8. For a valid range (\<open>startAt \<le> endAt\<close>) and a period type that is none of
  \<^verbatim>\<open>DAILY\<close>, \<^verbatim>\<open>MONTHLY\<close>, \<^verbatim>\<open>YEARLY\<close>, \<^verbatim>\<open>indexesByTimeRange\<close> fails with the
  \<^verbatim>\<open>RangeError\<close> of the final branch (the specification's UnsupportedGranularityError).
  For the three supported period types it never fails with that error, whatever the range,
  and for a valid range it returns a list of index names.
\<close>

theorem unsupported_period_fails:
  "(startAt \<le> endAt \<and> splitPeriodType \<notin> {DAILY, MONTHLY, YEARLY} \<longrightarrow>
      indexesByTimeRange prefix startAt endAt splitPeriodType enableGroupSelect = Inl RangeError) \<and>
   (splitPeriodType \<in> {DAILY, MONTHLY, YEARLY} \<longrightarrow>
      indexesByTimeRange prefix startAt endAt splitPeriodType enableGroupSelect \<noteq> Inl RangeError \<and>
      (startAt \<le> endAt \<longrightarrow>
         (\<exists>indexes. indexesByTimeRange prefix startAt endAt splitPeriodType enableGroupSelect
                      = Inr indexes)))"
  by (cases splitPeriodType) (simp_all add: indexesByTimeRange_def Let_def)

theorem unsupported_period_fails_witness:
  "(5 :: int) \<le> 10 \<and> OtherPeriodType ''HOURLY'' \<notin> {DAILY, MONTHLY, YEARLY} \<and>
   indexesByTimeRange ''test_'' 5 10 (OtherPeriodType ''HOURLY'') True = Inl RangeError \<and>
   MONTHLY \<in> {DAILY, MONTHLY, YEARLY} \<and>
   indexesByTimeRange ''test_'' 5 10 MONTHLY True \<noteq> Inl RangeError \<and>
   (\<exists>indexes. indexesByTimeRange ''test_'' 5 10 MONTHLY True = Inr indexes)"
  using unsupported_period_fails[of 5 10 "OtherPeriodType ''HOURLY''" "''test_''" True]
    unsupported_period_fails[of 5 10 MONTHLY "''test_''" True]
  by simp

section \<open>Reading labels back\<close>

definition digit_val :: "char \<Rightarrow> nat" where
  "digit_val c = of_char c - 48"

definition nat_of_string :: "string \<Rightarrow> nat" where
  "nat_of_string s = foldl (\<lambda>a c. 10 * a + digit_val c) 0 s"

definition int_of_string :: "string \<Rightarrow> int" where
  "int_of_string s =
     (case s of
        [] \<Rightarrow> 0
      | c # r \<Rightarrow> if c = CHR ''-'' then - int (nat_of_string r) else int (nat_of_string s))"

lemma digit_cases:
  fixes k :: nat
  assumes "k < 10"
  shows "k \<in> {0, 1, 2, 3, 4, 5, 6, 7, 8, 9}"
  using assms by auto

lemma digit_val_digit_char: "n < 10 \<Longrightarrow> digit_val (digit_char n) = n"
  using digit_cases[of n] by (auto simp: digit_val_def digit_char_def)

lemma digit_char_in: "n < 10 \<Longrightarrow> digit_char n \<in> set ''0123456789''"
  using digit_cases[of n] by (auto simp: digit_char_def)

lemma nat_of_string_snoc: "nat_of_string (s @ [c]) = 10 * nat_of_string s + digit_val c"
  by (simp add: nat_of_string_def)

lemma nat_of_string_of_nat: "nat_of_string (string_of_nat n) = n"
proof (induction n rule: string_of_nat.induct)
  case (1 n)
  show ?case
  proof (cases "n < 10")
    case True
    then have "string_of_nat n = [digit_char n]"
      by (subst string_of_nat.simps) simp
    then show ?thesis
      using digit_val_digit_char[OF True] by (simp add: nat_of_string_def)
  next
    case False
    have "string_of_nat n = string_of_nat (n div 10) @ [digit_char (n mod 10)]"
      using False by (subst string_of_nat.simps) simp
    then show ?thesis
      using 1[OF False] by (simp add: nat_of_string_snoc digit_val_digit_char)
  qed
qed

lemma set_string_of_nat: "set (string_of_nat n) \<subseteq> set ''0123456789''"
proof (induction n rule: string_of_nat.induct)
  case (1 n)
  show ?case
  proof (cases "n < 10")
    case True
    then show ?thesis
      using digit_char_in[of n] by (subst string_of_nat.simps) simp
  next
    case False
    have "n mod 10 < 10" by simp
    then show ?thesis
      using 1[OF False] False digit_char_in[of "n mod 10"]
      by (subst string_of_nat.simps) simp
  qed
qed

lemma string_of_nat_not_Nil: "string_of_nat n \<noteq> []"
  by (subst string_of_nat.simps) simp

lemma nat_of_string_zeros: "nat_of_string (replicate k CHR ''0'' @ s) = nat_of_string s"
proof -
  have "foldl (\<lambda>a c. 10 * a + digit_val c) 0 (replicate k CHR ''0'') = 0"
    by (induction k) (simp_all add: digit_val_def)
  then show ?thesis by (simp add: nat_of_string_def)
qed

definition padded :: "nat \<Rightarrow> nat \<Rightarrow> string" where
  "padded n k = replicate (k - length (string_of_nat n)) CHR ''0'' @ string_of_nat n"

lemma zeroFill_padded:
  "zeroFill y k = (if 0 \<le> y then padded (nat y) k else CHR ''-'' # padded (nat (- y)) k)"
  by (auto simp: zeroFill_def Let_def padded_def)

lemma set_padded: "set (padded n k) \<subseteq> set ''0123456789''"
  using set_string_of_nat[of n] by (auto simp: padded_def)

lemma padded_not_Nil: "padded n k \<noteq> []"
  by (simp add: padded_def string_of_nat_not_Nil)

lemma nat_of_string_padded: "nat_of_string (padded n k) = n"
  by (simp add: padded_def nat_of_string_zeros nat_of_string_of_nat)

lemma hd_padded: "hd (padded n k) \<noteq> CHR ''-''"
proof -
  have "hd (padded n k) \<in> set ''0123456789''"
    using set_padded[of n k] hd_in_set[OF padded_not_Nil[of n k]] by blast
  then show ?thesis by auto
qed

lemma int_of_string_zeroFill: "int_of_string (zeroFill y k) = y"
proof (cases "0 \<le> y")
  case True
  obtain c r where cr: "padded (nat y) k = c # r"
    using padded_not_Nil[of "nat y" k] by (cases "padded (nat y) k") auto
  then have "c \<noteq> CHR ''-''" using hd_padded[of "nat y" k] by simp
  then show ?thesis
    using True nat_of_string_padded[of "nat y" k]
    by (simp add: zeroFill_padded int_of_string_def cr)
next
  case False
  then show ?thesis
    by (simp add: zeroFill_padded int_of_string_def nat_of_string_padded)
qed

lemma string_of_nat_small: "n < 10 \<Longrightarrow> string_of_nat n = [digit_char n]"
  by (subst string_of_nat.simps) simp

lemma string_of_nat_large:
  "\<not> n < 10 \<Longrightarrow> string_of_nat n = string_of_nat (n div 10) @ [digit_char (n mod 10)]"
  by (subst string_of_nat.simps) simp

lemma length_string_of_nat_2: "n < 100 \<Longrightarrow> length (string_of_nat n) \<le> 2"
proof (cases "n < 10")
  case True
  then show ?thesis by (simp add: string_of_nat_small)
next
  case False
  assume "n < 100"
  then have "n div 10 < 10" by simp
  then show ?thesis by (simp add: string_of_nat_large[OF False] string_of_nat_small)
qed

lemma length_padded_2: "n < 100 \<Longrightarrow> length (padded n 2) = 2"
  using length_string_of_nat_2[of n] by (simp add: padded_def)

lemma length_padded_ge: "k \<le> length (padded n k)"
  by (simp add: padded_def)

lemma padded_no_mark: "CHR ''.'' \<notin> set (padded n k)" "CHR ''*'' \<notin> set (padded n k)"
proof -
  have "CHR ''.'' \<notin> set ''0123456789''" "CHR ''*'' \<notin> set ''0123456789''" by simp_all
  then show "CHR ''.'' \<notin> set (padded n k)" "CHR ''*'' \<notin> set (padded n k)"
    using set_padded[of n k] by blast+
qed

lemma zeroFill_no_mark: "CHR ''.'' \<notin> set (zeroFill y k)" "CHR ''*'' \<notin> set (zeroFill y k)"
  by (simp_all add: zeroFill_padded padded_no_mark)

lemma length_zeroFill_ge: "k \<le> length (zeroFill y k)"
  using length_padded_ge[of k "nat y"] length_padded_ge[of k "nat (- y)"]
  by (simp add: zeroFill_padded)

lemma length_zeroFill_2: "0 \<le> n \<Longrightarrow> n < 100 \<Longrightarrow> length (zeroFill n 2) = 2"
  using length_padded_2[of "nat n"] by (simp add: zeroFill_padded)

section \<open>The units of a partition\<close>

text \<open>
  The reading of the claims about \<^verbatim>\<open>indexesByTimeRange\<close>. The units of a partition are
  numbered: a day by its day number in the offset \<open>+09:00\<close>, a month by twelve times its year
  plus its month, a year by itself. \<open>unit_of\<close> is the unit that contains a time stamp,
  \<open>unit_start\<close> the first second of a unit, \<open>period_label\<close> the label of the unit that
  contains a time stamp, as \<^verbatim>\<open>format\<close> writes it in the offset \<open>+09:00\<close>.
\<close>

definition period_format :: "PeriodType \<Rightarrow> format_token list" where
  "period_format g =
     (case g of
        YEARLY \<Rightarrow> [YYYY]
      | MONTHLY \<Rightarrow> [YYYY, Lit ''.'', MM]
      | DAILY \<Rightarrow> [YYYY, Lit ''.'', MM, Lit ''.'', DD]
      | OtherPeriodType _ \<Rightarrow> [])"

definition period_label :: "PeriodType \<Rightarrow> int \<Rightarrow> string" where
  "period_label g t = format (utcOffset 9 (moment_unix t)) (period_format g)"

definition unit_of :: "PeriodType \<Rightarrow> int \<Rightarrow> int" where
  "unit_of g t =
     (let mom = utcOffset 9 (moment_unix t)
      in case g of
           YEARLY \<Rightarrow> get_year mom
         | MONTHLY \<Rightarrow> 12 * get_year mom + get_month mom
         | DAILY \<Rightarrow> Day (m_d mom)
         | OtherPeriodType _ \<Rightarrow> 0)"

definition unit_day :: "PeriodType \<Rightarrow> int \<Rightarrow> int" where
  "unit_day g u =
     (case g of
        YEARLY \<Rightarrow> DayFromYear u
      | MONTHLY \<Rightarrow> MakeDay 0 u 1
      | DAILY \<Rightarrow> u
      | OtherPeriodType _ \<Rightarrow> 0)"

definition unit_start :: "PeriodType \<Rightarrow> int \<Rightarrow> int" where
  "unit_start g u = 86400 * unit_day g u - 32400"

definition unit_label :: "PeriodType \<Rightarrow> int \<Rightarrow> string" where
  "unit_label g u = period_label g (unit_start g u)"

definition supported :: "PeriodType \<Rightarrow> bool" where
  "supported g = (g = DAILY \<or> g = MONTHLY \<or> g = YEARLY)"

text \<open>
  The time stamps (epoch seconds) at least 367 days inside the limits of a \<^verbatim>\<open>Date\<close>. The
  margin covers the shift to the offset \<open>+09:00\<close> and the whole year around a time stamp.
\<close>

definition in_date_range :: "int \<Rightarrow> bool" where
  "in_date_range t = (- 8639968291200 \<le> t \<and> t \<le> 8639968291200)"

text \<open>The moments the loops meet: the start of a day, and the last millisecond before it.\<close>

definition at_day :: "int \<Rightarrow> moment" where
  "at_day n = \<lparr>m_d = msPerDay * n, m_offset = 540\<rparr>"

definition end_before :: "int \<Rightarrow> moment" where
  "end_before n = \<lparr>m_d = msPerDay * n - 1, m_offset = 540\<rparr>"

definition local_day :: "int \<Rightarrow> int" where
  "local_day t = Day (m_d (utcOffset 9 (moment_unix t)))"

lemma utcOffset_unix: "utcOffset 9 (moment_unix t) = \<lparr>m_d = 1000 * t + 32400000, m_offset = 540\<rparr>"
  by (simp add: utcOffset_def moment_unix_def Let_def)

lemma local_day_eq: "local_day t = (t + 32400) div 86400"
proof -
  have "(1000 * t + 32400000) div 86400000 = (1000 * (t + 32400)) div (1000 * 86400)"
    by (simp add: algebra_simps)
  also have "\<dots> = (t + 32400) div 86400"
    by (rule div_mult_mult1) simp
  finally show ?thesis by (simp add: local_day_def utcOffset_unix Day_def msPerDay_def)
qed

lemma local_day_bracket: "86400 * local_day t - 32400 \<le> t" "t < 86400 * (local_day t + 1) - 32400"
proof -
  define q where "q = (t + 32400) div 86400"
  define r where "r = (t + 32400) mod 86400"
  have a: "86400 * q + r = t + 32400"
    unfolding q_def r_def by (rule mult_div_mod_eq)
  have b: "0 \<le> r" "r < 86400" unfolding r_def by simp_all
  show "86400 * local_day t - 32400 \<le> t"
    unfolding local_day_eq q_def[symmetric] using a b(1) by simp
  show "t < 86400 * (local_day t + 1) - 32400"
    unfolding local_day_eq q_def[symmetric] using a b(2) by (simp add: algebra_simps)
qed

lemma at_day_fields:
  "get_year (at_day n) = YearFromDay n" "get_month (at_day n) = MonthFromDay n"
  "get_date (at_day n) = DateFromDay n" "Day (m_d (at_day n)) = n"
  "TimeWithinDay (m_d (at_day n)) = 0"
  by (simp_all add: get_year_def get_month_def get_date_def at_day_def Day_whole TimeWithinDay_def)

lemma moment_fields_local:
  "get_year (utcOffset 9 (moment_unix t)) = YearFromDay (local_day t)"
  "get_month (utcOffset 9 (moment_unix t)) = MonthFromDay (local_day t)"
  "get_date (utcOffset 9 (moment_unix t)) = DateFromDay (local_day t)"
  by (simp_all add: get_year_def get_month_def get_date_def local_day_def)

lemma at_unit_start: "utcOffset 9 (moment_unix (86400 * n - 32400)) = at_day n"
  by (simp add: utcOffset_unix at_day_def msPerDay_def)

lemma local_day_unit_start: "local_day (86400 * n - 32400) = n"
  by (simp add: local_day_def at_unit_start at_day_fields)

subsection \<open>Months by number\<close>

lemma month_number:
  fixes y m :: int
  assumes "0 \<le> m" "m \<le> 11"
  shows "(12 * y + m) div 12 = y" "(12 * y + m) mod 12 = m"
proof -
  have e: "12 * y + m = 12 * y + m" ..
  show "(12 * y + m) div 12 = y" using int_div_pos_eq[OF e assms(1)] assms(2) by simp
  show "(12 * y + m) mod 12 = m" using int_mod_pos_eq[OF e assms(1)] assms(2) by simp
qed

lemma month_day: "0 \<le> m \<Longrightarrow> m \<le> 11 \<Longrightarrow> MakeDay 0 (12 * y + m) 1 = DayFromYear y + monthStart y m"
  by (simp add: MakeDay_def Let_def month_number)

lemma month_day_next:
  assumes "0 \<le> m" "m \<le> 11"
  shows "MakeDay 0 (12 * y + m + 1) 1 = DayFromYear y + monthStart y (m + 1)"
proof (cases "m = 11")
  case True
  have "MakeDay 0 (12 * (y + 1) + 0) 1 = DayFromYear (y + 1) + monthStart (y + 1) 0"
    by (rule month_day) simp_all
  moreover have "12 * y + m + 1 = 12 * (y + 1) + 0" using True by simp
  ultimately have "MakeDay 0 (12 * y + m + 1) 1 = DayFromYear (y + 1)"
    by (simp only: monthStart_0 add_0_right)
  then show ?thesis using True by (simp add: monthStart_12 DayFromYear_step)
next
  case False
  then have "0 \<le> m + 1" "m + 1 \<le> 11" using assms by simp_all
  from month_day[OF this, of y] show ?thesis by (simp add: algebra_simps)
qed

lemma month_split: "u = 12 * (u div 12) + u mod 12" "0 \<le> u mod 12" "u mod 12 \<le> 11" for u :: int
  by simp_all

lemma month_day_fields:
  "YearFromDay (MakeDay 0 u 1) = u div 12" "MonthFromDay (MakeDay 0 u 1) = u mod 12"
  "DateFromDay (MakeDay 0 u 1) = 1"
proof -
  have e: "MakeDay 0 u 1 = MakeDay (u div 12) (u mod 12) 1"
    by (simp add: MakeDay_def Let_def)
  have d: "(1::int) \<le> daysInMonth (u div 12) (u mod 12)"
    using daysInMonth_range(1)[of "u div 12" "u mod 12"] by simp
  show "YearFromDay (MakeDay 0 u 1) = u div 12" "MonthFromDay (MakeDay 0 u 1) = u mod 12"
    "DateFromDay (MakeDay 0 u 1) = 1"
    unfolding e using fields_of_MakeDay[OF month_split(2,3)[of u] _ d] by simp_all
qed

lemma month_day_step: "MakeDay 0 u 1 < MakeDay 0 (u + 1) 1"
proof -
  have "MakeDay 0 (12 * (u div 12) + u mod 12) 1 < MakeDay 0 (12 * (u div 12) + u mod 12 + 1) 1"
    unfolding month_day[OF month_split(2,3)] month_day_next[OF month_split(2,3)]
    using monthStart_step[OF month_split(2,3)[of u], where y = "u div 12"]
      daysInMonth_range(1)[of "u div 12" "u mod 12"]
    by simp
  then show ?thesis by simp
qed

definition label_of_day :: "PeriodType \<Rightarrow> int \<Rightarrow> string" where
  "label_of_day g n = format (at_day n) (period_format g)"

lemma label_of_day_simps:
  "label_of_day YEARLY n = zeroFill (YearFromDay n) 4"
  "label_of_day MONTHLY n = zeroFill (YearFromDay n) 4 @ ''.'' @ zeroFill (MonthFromDay n + 1) 2"
  "label_of_day DAILY n =
     zeroFill (YearFromDay n) 4 @ ''.'' @ zeroFill (MonthFromDay n + 1) 2 @ ''.''
       @ zeroFill (DateFromDay n) 2"
  by (simp_all add: label_of_day_def period_format_def format_def at_day_fields)

lemma period_label_local: "period_label g t = label_of_day g (local_day t)"
  by (cases g)
     (simp_all add: period_label_def label_of_day_def period_format_def format_def
        at_day_fields moment_fields_local)

lemma unit_label_day: "unit_label g u = label_of_day g (unit_day g u)"
  by (simp add: unit_label_def period_label_local unit_start_def local_day_unit_start)

lemma unit_of_local:
  "unit_of YEARLY t = YearFromDay (local_day t)"
  "unit_of MONTHLY t = 12 * YearFromDay (local_day t) + MonthFromDay (local_day t)"
  "unit_of DAILY t = local_day t"
  by (simp_all add: unit_of_def Let_def moment_fields_local local_day_def)

lemma YearFromDay_DayFromYear: "YearFromDay (DayFromYear y) = y"
  using DayFromYear_less[of y "y + 1"] by (intro YearFromDay_unique) simp_all

lemma unit_of_unit_start: "supported g \<Longrightarrow> unit_of g (unit_start g u) = u"
  unfolding supported_def
  by (auto simp: unit_of_local unit_start_def local_day_unit_start unit_day_def
      YearFromDay_DayFromYear month_day_fields)

lemma unit_day_step: "supported g \<Longrightarrow> unit_day g u < unit_day g (u + 1)"
  unfolding supported_def
  using DayFromYear_less[of u "u + 1"] month_day_step[of u]
  by (auto simp: unit_day_def)

lemma unit_day_less:
  assumes "supported g" "u < v"
  shows "unit_day g u < unit_day g v"
proof -
  have "unit_day g u < unit_day g (u + 1 + int n)" for n
  proof (induction n)
    case 0
    then show ?case using unit_day_step[OF assms(1), of u] by simp
  next
    case (Suc n)
    then show ?case using unit_day_step[OF assms(1), of "u + 1 + int n"] by (simp add: algebra_simps)
  qed
  from this[of "nat (v - u - 1)"] show ?thesis using assms(2) by simp
qed

lemma unit_day_less_iff: "supported g \<Longrightarrow> unit_day g u < unit_day g v \<longleftrightarrow> u < v"
  using unit_day_less[of g u v] unit_day_less[of g v u] by (cases u v rule: linorder_cases) auto

lemma unit_day_of_local:
  assumes "supported g"
  shows "unit_day g (unit_of g t) \<le> local_day t" "local_day t < unit_day g (unit_of g t + 1)"
proof -
  define n where "n = local_day t"
  have y: "DayFromYear (YearFromDay n) \<le> n" "n < DayFromYear (YearFromDay n + 1)"
    by (rule YearFromDay_bounds)+
  have m: "DayFromYear (YearFromDay n) + monthStart (YearFromDay n) (MonthFromDay n) \<le> n"
    "n < DayFromYear (YearFromDay n) + monthStart (YearFromDay n) (MonthFromDay n + 1)"
    using MonthFromDay_bracket[of n] by (simp_all add: DayWithinYear_def)
  show "unit_day g (unit_of g t) \<le> local_day t"
    using assms y(1) m(1) unfolding supported_def
    by (auto simp: unit_day_def unit_of_local n_def[symmetric] month_day[OF MonthFromDay_range])
  show "local_day t < unit_day g (unit_of g t + 1)"
    using assms y(2) m(2) unfolding supported_def
    by (auto simp: unit_day_def unit_of_local n_def[symmetric] month_day_next[OF MonthFromDay_range])
qed

lemma unit_bracket:
  assumes "supported g"
  shows "unit_start g (unit_of g t) \<le> t" "t < unit_start g (unit_of g t + 1)"
proof -
  have "86400 * unit_day g (unit_of g t) \<le> 86400 * local_day t"
    using unit_day_of_local(1)[OF assms, of t] by simp
  then show "unit_start g (unit_of g t) \<le> t"
    using local_day_bracket(1)[of t] by (simp add: unit_start_def)
  have "86400 * (local_day t + 1) \<le> 86400 * unit_day g (unit_of g t + 1)"
    using unit_day_of_local(2)[OF assms, of t] by simp
  then show "t < unit_start g (unit_of g t + 1)"
    using local_day_bracket(2)[of t] by (simp add: unit_start_def)
qed

lemma MonthFromDay_mod: "MonthFromDay n mod 12 = MonthFromDay n"
  using MonthFromDay_range[of n] by simp

lemma period_label_unit: "supported g \<Longrightarrow> period_label g t = unit_label g (unit_of g t)"
  unfolding supported_def
  by (auto simp: period_label_local unit_label_day unit_of_local unit_day_def label_of_day_simps
      YearFromDay_DayFromYear month_day_fields month_number[OF MonthFromDay_range] MonthFromDay_mod)

lemma unit_of_mono:
  assumes "supported g" "s \<le> t"
  shows "unit_of g s \<le> unit_of g t"
proof (rule ccontr)
  assume "\<not> unit_of g s \<le> unit_of g t"
  then have "unit_of g t + 1 \<le> unit_of g s" by simp
  then have "unit_day g (unit_of g t + 1) \<le> unit_day g (unit_of g s)"
    using unit_day_less[OF assms(1), of "unit_of g t + 1" "unit_of g s"]
    by (cases "unit_of g t + 1 = unit_of g s") simp_all
  then have "unit_start g (unit_of g t + 1) \<le> unit_start g (unit_of g s)"
    by (simp add: unit_start_def)
  then show False
    using unit_bracket(2)[OF assms(1), of t] unit_bracket(1)[OF assms(1), of s] assms(2) by simp
qed

subsection \<open>Labels name their units\<close>

lemma zeroFill_inj: "zeroFill a k = zeroFill b k \<Longrightarrow> a = b"
  by (metis int_of_string_zeroFill)

lemma month_part_length: "length (zeroFill (MonthFromDay n + 1) 2) = 2"
  using MonthFromDay_range[of n] by (intro length_zeroFill_2) simp_all

lemma date_part_length: "length (zeroFill (DateFromDay n) 2) = 2"
  using DateFromDay_range[of n] daysInMonth_range(2)[of "YearFromDay n" "MonthFromDay n"]
  by (intro length_zeroFill_2) simp_all

lemma day_of_fields:
  assumes "YearFromDay a = YearFromDay b" "MonthFromDay a = MonthFromDay b"
    "DateFromDay a = DateFromDay b"
  shows "a = b"
  using MakeDay_fields[of a 0] MakeDay_fields[of b 0] assms by simp

lemma label_of_day_daily_inj:
  assumes "label_of_day DAILY a = label_of_day DAILY b"
  shows "a = b"
proof -
  let ?y = "\<lambda>n. zeroFill (YearFromDay n) 4"
  let ?m = "\<lambda>n. ''.'' @ zeroFill (MonthFromDay n + 1) 2 @ ''.'' @ zeroFill (DateFromDay n) 2"
  have "?y a @ ?m a = ?y b @ ?m b" using assms by (simp add: label_of_day_simps)
  moreover have "length (?m a) = length (?m b)"
    by (simp add: month_part_length date_part_length)
  ultimately have y: "?y a = ?y b" and m: "?m a = ?m b" by simp_all
  let ?mm = "\<lambda>n. zeroFill (MonthFromDay n + 1) 2"
  let ?d = "\<lambda>n. ''.'' @ zeroFill (DateFromDay n) 2"
  have "?mm a @ ?d a = ?mm b @ ?d b" using m by simp
  moreover have "length (?mm a) = length (?mm b)" by (simp add: month_part_length)
  ultimately have mm: "?mm a = ?mm b" and d: "?d a = ?d b" by simp_all
  have 1: "YearFromDay a = YearFromDay b" by (rule zeroFill_inj[OF y])
  have "MonthFromDay a + 1 = MonthFromDay b + 1" by (rule zeroFill_inj[OF mm])
  then have 2: "MonthFromDay a = MonthFromDay b" by simp
  have "zeroFill (DateFromDay a) 2 = zeroFill (DateFromDay b) 2" using d by simp
  then have 3: "DateFromDay a = DateFromDay b" by (rule zeroFill_inj)
  show ?thesis by (rule day_of_fields[OF 1 2 3])
qed

lemma unit_label_inj:
  assumes "supported g" "unit_label g u = unit_label g v"
  shows "u = v"
proof -
  consider "g = DAILY" | "g = MONTHLY" | "g = YEARLY" using assms(1) by (auto simp: supported_def)
  then show ?thesis
  proof cases
    case 1
    then show ?thesis
      using assms(2) label_of_day_daily_inj[of u v] by (simp add: unit_label_day unit_day_def)
  next
    case 2
    let ?y = "\<lambda>n. zeroFill (n div 12) 4"
    let ?m = "\<lambda>n. ''.'' @ zeroFill (n mod 12 + 1) 2"
    have "?y u @ ?m u = ?y v @ ?m v"
      using assms(2) 2 by (simp add: unit_label_day unit_day_def label_of_day_simps month_day_fields)
    moreover have "length (?m u) = length (?m v)"
      by (simp add: length_zeroFill_2)
    ultimately have y: "?y u = ?y v" and m: "?m u = ?m v" by simp_all
    have 1: "u div 12 = v div 12" by (rule zeroFill_inj[OF y])
    have "zeroFill (u mod 12 + 1) 2 = zeroFill (v mod 12 + 1) 2" using m by simp
    then have "u mod 12 + 1 = v mod 12 + 1" by (rule zeroFill_inj)
    then have 2: "u mod 12 = v mod 12" by simp
    show ?thesis using month_split(1)[of u] month_split(1)[of v] unfolding 1 2 by simp
  next
    case 3
    then have "zeroFill u 4 = zeroFill v 4"
      using assms(2)
      by (simp add: unit_label_day unit_day_def label_of_day_simps YearFromDay_DayFromYear)
    then show ?thesis by (rule zeroFill_inj)
  qed
qed

lemma distinct_unit_labels: "supported g \<Longrightarrow> distinct (map (unit_label g) [a..b])"
  by (simp add: distinct_map inj_on_def) (metis unit_label_inj)

subsection \<open>A set built from a list without repetition\<close>

lemma foldl_Set_add: "distinct (acc @ xs) \<Longrightarrow> foldl Set_add acc xs = acc @ xs"
  by (induction xs arbitrary: acc) auto

lemma new_Set_distinct: "distinct xs \<Longrightarrow> new_Set xs = xs"
  using foldl_Set_add[of "[]" xs] by (simp add: new_Set_def)

lemma distinct_of_expansion:
  assumes "distinct (concat (map X xs))" "\<forall>x\<in>set xs. X x \<noteq> []"
  shows "distinct xs"
  using assms
proof (induction xs)
  case Nil
  then show ?case by simp
next
  case (Cons x xs)
  have "x \<notin> set xs"
  proof
    assume "x \<in> set xs"
    then have "set (X x) \<subseteq> set (concat (map X xs))" by auto
    then have "set (X x) \<inter> set (concat (map X xs)) = set (X x)" by (rule inf_absorb1)
    moreover have "set (X x) \<inter> set (concat (map X xs)) = {}" using Cons.prems(1) by simp
    ultimately have "set (X x) = {}" by simp
    then show False using Cons.prems(2) by simp
  qed
  then show ?case using Cons by simp
qed

subsection \<open>The moments of the loops\<close>

lemma unix_at_day: "unix (at_day n) = 86400 * n - 32400"
proof -
  have e: "86400000 * n - 32400000 = 1000 * (86400 * n - 32400)" by simp
  have "(86400000 * n - 32400000) div 1000 = 86400 * n - 32400"
    unfolding e by simp
  then show ?thesis by (simp add: unix_def valueOf_def at_day_def msPerDay_def)
qed

lemma unix_end_before: "unix (end_before n) = 86400 * n - 32400 - 1"
proof -
  have e: "86400000 * n - 32400001 = 1000 * (86400 * n - 32400 - 1) + 999" by simp
  have "(86400000 * n - 32400001) div 1000 = 86400 * n - 32400 - 1"
    by (rule int_div_pos_eq[OF e]) simp_all
  then show ?thesis by (simp add: unix_def valueOf_def end_before_def msPerDay_def)
qed

lemma at_day_before_end: "unix (at_day a) \<le> unix (end_before b) \<longleftrightarrow> a < b"
  unfolding unix_at_day unix_end_before by linarith

lemma end_before_le: "unix (end_before a) \<le> unix (end_before b) \<longleftrightarrow> a \<le> b"
  unfolding unix_end_before by linarith

lemma MakeDay_first: "MakeDay y 0 1 = DayFromYear y"
  by (simp add: MakeDay_in_year monthStart_0)

lemma set_m_d_local: "(utcOffset 9 (moment_unix t))\<lparr>m_d := v\<rparr> = \<lparr>m_d = v, m_offset = 540\<rparr>"
  by (simp add: utcOffset_unix)

lemma startOf_date_local: "startOf_date (utcOffset 9 (moment_unix t)) = at_day (local_day t)"
  using MakeDay_fields[of "local_day t" 0]
  by (simp add: startOf_date_def moment_fields_local set_m_d_local at_day_def)

lemma endOf_date_local: "endOf_date (utcOffset 9 (moment_unix t)) = end_before (local_day t + 1)"
  by (simp add: endOf_date_def moment_fields_local set_m_d_local end_before_def MakeDay_fields)

lemma startOf_month_local:
  "startOf_month (utcOffset 9 (moment_unix t)) = at_day (unit_day MONTHLY (unit_of MONTHLY t))"
  by (simp add: startOf_month_def moment_fields_local at_day_def unit_day_def unit_of_local
      set_m_d_local month_day[OF MonthFromDay_range] MakeDay_in_year[OF MonthFromDay_range])

lemma endOf_month_local:
  "endOf_month (utcOffset 9 (moment_unix t)) = end_before (unit_day MONTHLY (unit_of MONTHLY t + 1))"
  by (simp add: endOf_month_def moment_fields_local end_before_def unit_day_def unit_of_local
      set_m_d_local month_day_next[OF MonthFromDay_range] MakeDay_next_month[OF MonthFromDay_range])

lemma startOf_year_local:
  "startOf_year (utcOffset 9 (moment_unix t)) = at_day (unit_day YEARLY (unit_of YEARLY t))"
  by (simp add: startOf_year_def moment_fields_local at_day_def unit_day_def unit_of_local
      set_m_d_local MakeDay_first)

lemma endOf_year_local:
  "endOf_year (utcOffset 9 (moment_unix t)) = end_before (unit_day YEARLY (unit_of YEARLY t + 1))"
  by (simp add: endOf_year_def moment_fields_local end_before_def unit_day_def unit_of_local
      set_m_d_local MakeDay_first)

lemma set_m_d_at_day: "(at_day n)\<lparr>m_d := v\<rparr> = \<lparr>m_d = v, m_offset = 540\<rparr>"
  by (simp add: at_day_def)

lemma at_day_eq: "\<lparr>m_d = msPerDay * n, m_offset = 540\<rparr> = at_day n"
  by (simp add: at_day_def)

lemma end_before_eq: "\<lparr>m_d = msPerDay * n - 1, m_offset = 540\<rparr> = end_before n"
  by (simp add: end_before_def)

lemma endOf_year_at_day: "endOf_year (at_day n) = end_before (DayFromYear (YearFromDay n + 1))"
  by (simp add: endOf_year_def at_day_fields MakeDay_first set_m_d_at_day end_before_eq)

lemma endOf_month_at_day:
  "endOf_month (at_day n) =
     end_before (DayFromYear (YearFromDay n) + monthStart (YearFromDay n) (MonthFromDay n + 1))"
  by (simp add: endOf_month_def at_day_fields MakeDay_next_month[OF MonthFromDay_range]
      set_m_d_at_day end_before_eq)

lemma next_year_at_day:
  "startOf_year (add_years 1 (at_day n)) = at_day (DayFromYear (YearFromDay n + 1))"
  by (simp add: startOf_year_add_years at_day_fields set_m_d_at_day at_day_eq)

lemma next_month_at_day:
  "startOf_month (add_months 1 (at_day n)) =
     at_day (DayFromYear (YearFromDay n) + monthStart (YearFromDay n) (MonthFromDay n + 1))"
  by (simp add: startOf_month_add_months at_day_fields set_m_d_at_day at_day_eq)

lemma add_days_at_day: "add_days 1 (at_day n) = at_day (n + 1)"
proof -
  have "m_d (add_days 1 (at_day n)) = msPerDay * (n + 1)"
    by (simp add: add_days_m_d at_day_def algebra_simps)
  moreover have "m_offset (add_days 1 (at_day n)) = 540"
    by (simp add: add_days_offset at_day_def)
  ultimately show ?thesis by (simp add: at_day_def)
qed

text \<open>From the first day of a month, one month further is the first day of the next month.\<close>

lemma add_months_first:
  assumes "DateFromDay n = 1"
  shows "add_months 1 (at_day n) =
     at_day (DayFromYear (YearFromDay n) + monthStart (YearFromDay n) (MonthFromDay n + 1))"
proof -
  have "min 1 (daysInMonth y v) = 1" for y v
    using daysInMonth_range(1)[of y v] by simp
  then show ?thesis
    using assms
    by (simp add: add_months_def setMonth_def Let_def at_day_fields
        MakeDay_next_month[OF MonthFromDay_range] set_m_d_at_day at_day_eq)
qed

lemma add_years_first:
  "add_years 1 (at_day (DayFromYear y)) = at_day (DayFromYear (y + 1))"
proof -
  have d: "DayFromYear y = MakeDay y 0 1" by (simp add: MakeDay_first)
  have l: "(1::int) \<le> daysInMonth y 0" using daysInMonth_range(1)[of y 0] by simp
  have f: "MonthFromDay (DayFromYear y) = 0" "DateFromDay (DayFromYear y) = 1"
    unfolding d using fields_of_MakeDay(2,3)[of 0 1 y] l by simp_all
  have "min 1 (daysInMonth y v) = 1" for y v
    using daysInMonth_range(1)[of y v] by simp
  then show ?thesis
    using MakeDay_carry[of y 0 1]
    by (simp add: add_years_def add_months_def setMonth_def Let_def at_day_fields f
        YearFromDay_DayFromYear MakeDay_first set_m_d_at_day at_day_eq)
qed

subsection \<open>A loop that walks the units\<close>

text \<open>
  The three loops have one shape: while the cursor is not past the end, push what the step
  gives and move the cursor where the step says. When the cursor stands at the start of
  unit \<open>u\<close>, the step moves it to the start of a later unit \<open>u'\<close> and its output stands for the
  units from \<open>u\<close> up to \<open>u'\<close>; so the outputs of the loop stand for the units up to the last.
\<close>

lemma upto_append: "u \<le> v \<Longrightarrow> v \<le> w + 1 \<Longrightarrow> [u..v - 1] @ [v..w] = [u..w]" for u v w :: int
  using upto_split2[of u "v - 1" w] by (cases "u = v") simp_all

lemma walk_units:
  fixes L :: "moment \<Rightarrow> string list \<Rightarrow> string list" and C :: "int \<Rightarrow> moment"
  assumes rec: "\<And>c acc. L c acc = (if P c then L (nxt c) (acc @ [out c]) else acc)"
    and cond: "\<And>u. P (C u) \<longleftrightarrow> u \<le> w"
    and step: "\<And>u. u \<le> w \<Longrightarrow> \<exists>v. u < v \<and> v \<le> w + 1 \<and> nxt (C u) = C v \<and> X (out (C u)) = map lab [u..v - 1]"
    and "u \<le> w + 1"
  shows "concat (map X (L (C u) acc)) = concat (map X acc) @ map lab [u..w] \<and>
         (\<forall>t\<in>set (L (C u) acc). t \<in> set acc \<or> X t \<noteq> [])"
  using assms(4)
proof (induction "nat (w + 1 - u)" arbitrary: u acc rule: less_induct)
  case less
  show ?case
  proof (cases "u \<le> w")
    case False
    then have "u = w + 1" using less.prems by simp
    moreover have "L (C u) acc = acc" using False by (subst rec) (simp add: cond)
    ultimately show ?thesis by simp
  next
    case True
    then obtain v where v: "u < v" "v \<le> w + 1" "nxt (C u) = C v"
      "X (out (C u)) = map lab [u..v - 1]"
      using step by blast
    have l: "L (C u) acc = L (C v) (acc @ [out (C u)])"
      using True by (subst rec) (simp add: cond v(3))
    have "nat (w + 1 - v) < nat (w + 1 - u)" using v(1,2) by simp
    from less.hyps[OF this v(2), of "acc @ [out (C u)]"]
    have ih: "concat (map X (L (C v) (acc @ [out (C u)])))
                = concat (map X (acc @ [out (C u)])) @ map lab [v..w]"
      "\<forall>t\<in>set (L (C v) (acc @ [out (C u)])). t \<in> set (acc @ [out (C u)]) \<or> X t \<noteq> []"
      by simp_all
    have ne: "X (out (C u)) \<noteq> []" using v(1,4) by simp
    have "concat (map X (L (C u) acc)) = concat (map X acc) @ map lab ([u..v - 1] @ [v..w])"
      unfolding l ih(1) by (simp add: v(4))
    then have 1: "concat (map X (L (C u) acc)) = concat (map X acc) @ map lab [u..w]"
      using upto_append[of u v w] v(1,2) by simp
    have 2: "\<forall>t\<in>set (L (C u) acc). t \<in> set acc \<or> X t \<noteq> []"
      unfolding l using ih(2) ne by auto
    show ?thesis using 1 2 by simp
  qed
qed

subsection \<open>Group tokens and what they stand for\<close>

text \<open>
  A group token ends in \<open>.*\<close>. What is before it is a year, or a year and a month. The
  expansion of a token of a partition lists the labels of the units of that partition that
  the token stands for: the days or months of the year, the days of the month, and the
  token itself when it is not a group token.
\<close>

definition is_group :: "string \<Rightarrow> bool" where
  "is_group s = (2 \<le> length s \<and> drop (length s - 2) s = ''.*'')"

definition expand_suffix :: "PeriodType \<Rightarrow> string \<Rightarrow> string list" where
  "expand_suffix g s =
     (if is_group s then
        (let body = take (length s - 2) s
         in if CHR ''.'' \<in> set body then
              (let y = int_of_string (take (length body - 3) body);
                   m = int_of_string (drop (length body - 2) body) - 1
               in map (unit_label DAILY) [MakeDay y m 1 .. MakeDay y (m + 1) 1 - 1])
            else
              (let y = int_of_string body
               in case g of
                    DAILY \<Rightarrow> map (unit_label DAILY) [DayFromYear y .. DayFromYear (y + 1) - 1]
                  | MONTHLY \<Rightarrow> map (unit_label MONTHLY) [12 * y .. 12 * y + 11]
                  | _ \<Rightarrow> [s]))
      else [s])"

definition expand_token :: "string \<Rightarrow> PeriodType \<Rightarrow> string \<Rightarrow> string list" where
  "expand_token prefix g tok =
     map (\<lambda>v. prefix @ v) (expand_suffix g (drop (length prefix) tok))"

lemma is_group_mark: "is_group (a @ ''.*'')"
  by (simp add: is_group_def)

lemma is_group_last: "is_group s \<Longrightarrow> s \<noteq> [] \<and> last s = CHR ''*''"
proof -
  assume g: "is_group s"
  then have "s = take (length s - 2) s @ ''.*''"
    using append_take_drop_id[of "length s - 2" s] by (simp add: is_group_def)
  then have "last s = last (take (length s - 2) s @ ''.*'')" by simp
  then show ?thesis using g by (auto simp: is_group_def)
qed

lemma zeroFill_not_Nil: "0 < k \<Longrightarrow> zeroFill y k \<noteq> []"
  using length_zeroFill_ge[of k y] by auto

lemma not_group_digits: "0 < k \<Longrightarrow> \<not> is_group (a @ zeroFill y k)"
proof
  assume k: "0 < k" and "is_group (a @ zeroFill y k)"
  then have "last (a @ zeroFill y k) = CHR ''*''" using is_group_last by blast
  then have "last (zeroFill y k) = CHR ''*''" using zeroFill_not_Nil[OF k, of y] by simp
  then have "CHR ''*'' \<in> set (zeroFill y k)"
    using last_in_set[OF zeroFill_not_Nil[OF k, of y]] by simp
  then show False using zeroFill_no_mark(2)[of y k] by simp
qed

lemma unit_label_not_group: "supported g \<Longrightarrow> \<not> is_group (unit_label g u)"
proof -
  assume "supported g"
  then consider "g = DAILY" | "g = MONTHLY" | "g = YEARLY" by (auto simp: supported_def)
  then show ?thesis
  proof cases
    case 1
    show ?thesis
      using not_group_digits[of 2 "zeroFill (YearFromDay u) 4 @ ''.'' @ zeroFill (MonthFromDay u + 1) 2 @ ''.''"
          "DateFromDay u"]
      by (simp add: 1 unit_label_day unit_day_def label_of_day_simps)
  next
    case 2
    show ?thesis
      using not_group_digits[of 2 "zeroFill (YearFromDay (MakeDay 0 u 1)) 4 @ ''.''"
          "MonthFromDay (MakeDay 0 u 1) + 1"]
      by (simp add: 2 unit_label_day unit_day_def label_of_day_simps)
  next
    case 3
    show ?thesis
      using not_group_digits[of 4 "[]" "YearFromDay (DayFromYear u)"]
      by (simp add: 3 unit_label_day unit_day_def label_of_day_simps)
  qed
qed

lemma expand_unit_label: "supported g \<Longrightarrow> expand_suffix g (unit_label g u) = [unit_label g u]"
  by (simp add: expand_suffix_def unit_label_not_group)

definition year_group :: "int \<Rightarrow> string" where
  "year_group y = zeroFill y 4 @ ''.*''"

definition month_group :: "int \<Rightarrow> int \<Rightarrow> string" where
  "month_group y m = zeroFill y 4 @ ''.'' @ zeroFill (m + 1) 2 @ ''.*''"

lemma expand_year_group:
  "expand_suffix DAILY (year_group y)
     = map (unit_label DAILY) [DayFromYear y .. DayFromYear (y + 1) - 1]"
  "expand_suffix MONTHLY (year_group y) = map (unit_label MONTHLY) [12 * y .. 12 * y + 11]"
  using is_group_mark[of "zeroFill y 4"]
  by (simp_all add: year_group_def expand_suffix_def Let_def zeroFill_no_mark int_of_string_zeroFill)

lemma expand_month_group:
  assumes "0 \<le> m" "m \<le> 11"
  shows "expand_suffix DAILY (month_group y m)
     = map (unit_label DAILY)
         [DayFromYear y + monthStart y m .. DayFromYear y + monthStart y (m + 1) - 1]"
proof -
  define body where "body = zeroFill y 4 @ ''.'' @ zeroFill (m + 1) 2"
  have l: "length (zeroFill (m + 1) 2) = 2" using assms by (intro length_zeroFill_2) simp_all
  have g: "is_group (body @ ''.*'')" by (rule is_group_mark)
  have b: "take (length (body @ ''.*'') - 2) (body @ ''.*'') = body" by simp
  have d: "CHR ''.'' \<in> set body" by (simp add: body_def)
  have y: "take (length body - 3) body = zeroFill y 4" by (simp add: body_def l)
  have mm: "drop (length body - 2) body = zeroFill (m + 1) 2" by (simp add: body_def l)
  have "expand_suffix DAILY (body @ ''.*'')
          = map (unit_label DAILY) [MakeDay y m 1 .. MakeDay y (m + 1) 1 - 1]"
    unfolding expand_suffix_def Let_def b y mm int_of_string_zeroFill using g d by simp
  then show ?thesis
    by (simp add: month_group_def body_def MakeDay_in_year[OF assms] MakeDay_next_month[OF assms])
qed

subsection \<open>One step from the start of a unit\<close>

lemma format_at_day: "format (at_day n) (period_format g) = label_of_day g n"
  by (simp add: label_of_day_def)

lemma daily_label: "format (at_day n) [YYYY, Lit ''.'', MM, Lit ''.'', DD] = unit_label DAILY n"
  using format_at_day[of n DAILY] by (simp add: period_format_def unit_label_day unit_day_def)

lemma monthly_label:
  "format (at_day (unit_day MONTHLY u)) [YYYY, Lit ''.'', MM] = unit_label MONTHLY u"
  using format_at_day[of "unit_day MONTHLY u" MONTHLY] by (simp add: period_format_def unit_label_day)

lemma yearly_label: "format (at_day (unit_day YEARLY u)) [YYYY] = unit_label YEARLY u"
  using format_at_day[of "unit_day YEARLY u" YEARLY] by (simp add: period_format_def unit_label_day)

lemma year_group_label: "format (at_day n) [YYYY, Lit ''.*''] = year_group (YearFromDay n)"
  by (simp add: format_def at_day_fields year_group_def)

lemma month_group_label:
  "format (at_day n) [YYYY, Lit ''.'', MM, Lit ''.*''] = month_group (YearFromDay n) (MonthFromDay n)"
  by (simp add: format_def at_day_fields month_group_def)

lemma yearly_step_unit:
  "yearly_step (at_day (unit_day YEARLY u)) = (unit_label YEARLY u, at_day (unit_day YEARLY (u + 1)))"
  using add_years_first[of u] yearly_label[of u] by (simp add: yearly_step_def unit_day_def)

lemma month_unit_next:
  "DayFromYear (u div 12) + monthStart (u div 12) (u mod 12 + 1) = unit_day MONTHLY (u + 1)"
  using month_day_next[OF month_split(2,3)[of u], of "u div 12"] by (simp add: unit_day_def)

lemma month_unit_fields:
  "YearFromDay (unit_day MONTHLY u) = u div 12" "MonthFromDay (unit_day MONTHLY u) = u mod 12"
  "DateFromDay (unit_day MONTHLY u) = 1"
  by (simp_all add: unit_day_def month_day_fields)

lemma add_months_unit:
  "add_months 1 (at_day (unit_day MONTHLY u)) = at_day (unit_day MONTHLY (u + 1))"
  using add_months_first[OF month_unit_fields(3)[of u]]
  by (simp add: month_unit_fields month_unit_next)

lemma monthly_step_plain:
  "monthly_step False e (at_day (unit_day MONTHLY u))
     = (unit_label MONTHLY u, at_day (unit_day MONTHLY (u + 1)))"
  by (simp add: monthly_step_def monthly_label add_months_unit)

lemma daily_step_plain:
  "daily_step False e (at_day n) = (unit_label DAILY n, at_day (n + 1))"
  by (simp add: daily_step_def daily_label add_days_at_day)

text \<open>
  With group selection, from the start of month \<open>u\<close>: the year as a group when the month is
  January and the year ends by the end of the range, else the month.
\<close>

lemma year_of_months: "unit_day MONTHLY (12 * y) = DayFromYear y"
  using month_day[of 0 y] by (simp add: unit_day_def monthStart_0)

lemma monthly_step_group:
  "monthly_step True (end_before (unit_day MONTHLY (w + 1))) (at_day (unit_day MONTHLY u)) =
     (if u mod 12 = 0 \<and> u + 11 \<le> w
      then (year_group (u div 12), at_day (unit_day MONTHLY (u + 12)))
      else (unit_label MONTHLY u, at_day (unit_day MONTHLY (u + 1))))"
proof -
  have sup: "supported MONTHLY" by (simp add: supported_def)
  have e: "DayFromYear (u div 12 + 1) = unit_day MONTHLY (12 * (u div 12 + 1))"
    by (simp only: year_of_months)
  have c: "unix (endOf_year (at_day (unit_day MONTHLY u))) \<le> unix (end_before (unit_day MONTHLY (w + 1)))
             \<longleftrightarrow> 12 * (u div 12 + 1) \<le> w + 1"
    unfolding endOf_year_at_day end_before_le month_unit_fields e
    using unit_day_less_iff[OF sup, of "w + 1" "12 * (u div 12 + 1)"] by auto
  have j: "startOf_year (add_years 1 (at_day (unit_day MONTHLY u)))
             = at_day (unit_day MONTHLY (12 * (u div 12 + 1)))"
    unfolding next_year_at_day month_unit_fields e ..
  have z: "u mod 12 = 0 \<Longrightarrow> 12 * (u div 12 + 1) = u + 12"
    using month_split(1)[of u] by simp
  show ?thesis
  proof (cases "u mod 12 = 0 \<and> u + 11 \<le> w")
    case True
    then have "12 * (u div 12 + 1) \<le> w + 1" using z by simp
    then show ?thesis
      using True z
      by (simp add: monthly_step_def at_day_fields month_unit_fields c j year_group_label)
  next
    case False
    then have "\<not> (u mod 12 = 0 \<and> 12 * (u div 12 + 1) \<le> w + 1)" using z by auto
    then show ?thesis
      using False
      by (auto simp: monthly_step_def at_day_fields month_unit_fields c monthly_label add_months_unit)
  qed
qed

text \<open>
  With group selection, from the start of day \<open>n\<close>: the year as a group on the first of
  January when the year ends by the end of the range; else the month as a group on the first
  of a month when the month ends by the end of the range; else the day.
\<close>

definition next_year_day :: "int \<Rightarrow> int" where
  "next_year_day n = DayFromYear (YearFromDay n + 1)"

definition next_month_day :: "int \<Rightarrow> int" where
  "next_month_day n = DayFromYear (YearFromDay n) + monthStart (YearFromDay n) (MonthFromDay n + 1)"

lemma daily_step_group:
  "daily_step True (end_before (w + 1)) (at_day n) =
     (if MonthFromDay n = 0 \<and> DateFromDay n = 1 \<and> next_year_day n \<le> w + 1
      then (year_group (YearFromDay n), at_day (next_year_day n))
      else if DateFromDay n = 1 \<and> next_month_day n \<le> w + 1
      then (month_group (YearFromDay n) (MonthFromDay n), at_day (next_month_day n))
      else (unit_label DAILY n, at_day (n + 1)))"
  by (simp add: daily_step_def at_day_fields endOf_year_at_day endOf_month_at_day end_before_le
      next_year_at_day next_month_at_day year_group_label month_group_label daily_label
      add_days_at_day next_year_day_def next_month_day_def)

subsection \<open>The loops from the start of a unit\<close>

definition unit_loop :: "PeriodType \<Rightarrow> bool \<Rightarrow> int \<Rightarrow> int \<Rightarrow> string list" where
  "unit_loop g G w u =
     (case g of
        YEARLY \<Rightarrow> yearly_loop (end_before (unit_day YEARLY (w + 1))) (at_day (unit_day YEARLY u)) []
      | MONTHLY \<Rightarrow>
          monthly_loop G (end_before (unit_day MONTHLY (w + 1))) (at_day (unit_day MONTHLY u)) []
      | DAILY \<Rightarrow> daily_loop G (end_before (unit_day DAILY (w + 1))) (at_day (unit_day DAILY u)) []
      | OtherPeriodType _ \<Rightarrow> [])"

lemma indexes_unit_loop:
  assumes "startAt \<le> endAt" "supported g"
  shows "indexesByTimeRange prefix startAt endAt g G
           = Inr (map (\<lambda>v. prefix @ v) (new_Set (unit_loop g G (unit_of g endAt) (unit_of g startAt))))"
proof -
  have d: "startOf_date (utcOffset 9 (moment_unix startAt)) = at_day (unit_day DAILY (unit_of DAILY startAt))"
    "endOf_date (utcOffset 9 (moment_unix endAt)) = end_before (unit_day DAILY (unit_of DAILY endAt + 1))"
    by (simp_all add: startOf_date_local endOf_date_local unit_day_def unit_of_local)
  show ?thesis
    using assms unfolding supported_def
    by (auto simp: indexesByTimeRange_def Let_def unit_loop_def d startOf_month_local
        endOf_month_local startOf_year_local endOf_year_local)
qed

lemma unit_cursor_cond:
  "supported g \<Longrightarrow>
     unix (at_day (unit_day g u)) \<le> unix (end_before (unit_day g (w + 1))) \<longleftrightarrow> u \<le> w"
  using unit_day_less_iff[of g u "w + 1"] by (simp add: at_day_before_end)

lemma singleton_upto: "[u..u + 1 - 1] = [u]" for u :: int
  by simp

lemma concat_singletons: "concat (map (\<lambda>t. [t]) xs) = xs"
  by (induction xs) simp_all

lemma first_of_year:
  assumes "MonthFromDay n = 0" "DateFromDay n = 1"
  shows "DayFromYear (YearFromDay n) = n"
  using MakeDay_fields[of n 0] assms by (simp add: MakeDay_first)

lemma first_of_month:
  assumes "DateFromDay n = 1"
  shows "DayFromYear (YearFromDay n) + monthStart (YearFromDay n) (MonthFromDay n) = n"
  using assms by (simp add: DateFromDay_def DayWithinYear_def)

lemma next_year_day_after: "n < next_year_day n"
  using YearFromDay_bounds(2)[of n] by (simp add: next_year_day_def)

lemma next_month_day_after: "n < next_month_day n"
  using MonthFromDay_bracket(2)[of n] by (simp add: next_month_day_def DayWithinYear_def)

lemma daily_group_step:
  assumes "u \<le> w"
  shows "\<exists>v. u < v \<and> v \<le> w + 1 \<and>
           snd (daily_step True (end_before (w + 1)) (at_day u)) = at_day v \<and>
           expand_suffix DAILY (fst (daily_step True (end_before (w + 1)) (at_day u)))
             = map (unit_label DAILY) [u..v - 1]"
proof -
  have sup: "supported DAILY" by (simp add: supported_def)
  define A where "A = (MonthFromDay u = 0 \<and> DateFromDay u = 1 \<and> next_year_day u \<le> w + 1)"
  define B where "B = (DateFromDay u = 1 \<and> next_month_day u \<le> w + 1)"
  have st: "daily_step True (end_before (w + 1)) (at_day u) =
     (if A then (year_group (YearFromDay u), at_day (next_year_day u))
      else if B then (month_group (YearFromDay u) (MonthFromDay u), at_day (next_month_day u))
      else (unit_label DAILY u, at_day (u + 1)))"
    unfolding A_def B_def by (rule daily_step_group)
  consider (year) A | (month) "\<not> A" B | (day) "\<not> A" "\<not> B" by blast
  then show ?thesis
  proof cases
    case year
    then have a: "MonthFromDay u = 0" "DateFromDay u = 1" "next_year_day u \<le> w + 1"
      by (simp_all add: A_def)
    have s: "daily_step True (end_before (w + 1)) (at_day u)
               = (year_group (YearFromDay u), at_day (next_year_day u))"
      using year by (simp add: st)
    have x: "expand_suffix DAILY (year_group (YearFromDay u))
               = map (unit_label DAILY) [u..next_year_day u - 1]"
      unfolding expand_year_group(1) next_year_day_def first_of_year[OF a(1,2)] ..
    show ?thesis
      using a(3) next_year_day_after[of u] by (intro exI[of _ "next_year_day u"]) (simp add: s x)
  next
    case month
    then have b: "DateFromDay u = 1" "next_month_day u \<le> w + 1" by (simp_all add: B_def)
    have s: "daily_step True (end_before (w + 1)) (at_day u)
               = (month_group (YearFromDay u) (MonthFromDay u), at_day (next_month_day u))"
      using month by (simp add: st)
    have x: "expand_suffix DAILY (month_group (YearFromDay u) (MonthFromDay u))
               = map (unit_label DAILY) [u..next_month_day u - 1]"
      unfolding expand_month_group[OF MonthFromDay_range] next_month_day_def
        first_of_month[OF b(1)] ..
    show ?thesis
      using b(2) next_month_day_after[of u]
      by (intro exI[of _ "next_month_day u"]) (simp add: s x)
  next
    case day
    have s: "daily_step True (end_before (w + 1)) (at_day u) = (unit_label DAILY u, at_day (u + 1))"
      using day by (simp add: st)
    show ?thesis
      using assms by (intro exI[of _ "u + 1"]) (simp add: s expand_unit_label[OF sup])
  qed
qed

lemma monthly_group_step:
  assumes "u \<le> w"
  shows "\<exists>v. u < v \<and> v \<le> w + 1 \<and>
           snd (monthly_step True (end_before (unit_day MONTHLY (w + 1))) (at_day (unit_day MONTHLY u)))
             = at_day (unit_day MONTHLY v) \<and>
           expand_suffix MONTHLY
             (fst (monthly_step True (end_before (unit_day MONTHLY (w + 1))) (at_day (unit_day MONTHLY u))))
             = map (unit_label MONTHLY) [u..v - 1]"
proof (cases "u mod 12 = 0 \<and> u + 11 \<le> w")
  case True
  then have u: "12 * (u div 12) = u" using month_split(1)[of u] by simp
  have "u + 12 - 1 = u + 11" by simp
  then have "expand_suffix MONTHLY (year_group (u div 12)) = map (unit_label MONTHLY) [u..u + 12 - 1]"
    unfolding expand_year_group(2) u by (simp only:)
  then show ?thesis
    using True by (intro exI[of _ "u + 12"]) (simp add: monthly_step_group)
next
  case False
  have sup: "supported MONTHLY" by (simp add: supported_def)
  show ?thesis
    using False assms
    by (intro exI[of _ "u + 1"]) (auto simp: monthly_step_group expand_unit_label[OF sup])
qed

lemma daily_loop_plain:
  assumes "u \<le> w + 1"
  shows "daily_loop False (end_before (w + 1)) (at_day u) [] = map (unit_label DAILY) [u..w]"
proof -
  let ?E = "end_before (w + 1)"
  have "concat (map (\<lambda>t. [t]) (daily_loop False ?E (at_day u) []))
          = concat (map (\<lambda>t. [t]) []) @ map (unit_label DAILY) [u..w] \<and>
        (\<forall>t\<in>set (daily_loop False ?E (at_day u) []). t \<in> set [] \<or> [t] \<noteq> [])"
  proof (rule walk_units[where P = "\<lambda>c. unix c \<le> unix ?E"
        and nxt = "\<lambda>c. snd (daily_step False ?E c)" and out = "\<lambda>c. fst (daily_step False ?E c)"
        and C = at_day and w = w])
    show "daily_loop False ?E c acc =
            (if unix c \<le> unix ?E
             then daily_loop False ?E (snd (daily_step False ?E c)) (acc @ [fst (daily_step False ?E c)])
             else acc)" for c acc
      by (rule daily_loop.simps)
    show "(unix (at_day v) \<le> unix ?E) = (v \<le> w)" for v
      unfolding at_day_before_end by linarith
    show "\<exists>v'. v < v' \<and> v' \<le> w + 1 \<and> snd (daily_step False ?E (at_day v)) = at_day v' \<and>
            [fst (daily_step False ?E (at_day v))] = map (unit_label DAILY) [v..v' - 1]"
      if "v \<le> w" for v
      using that by (intro exI[of _ "v + 1"]) (simp add: daily_step_plain)
    show "u \<le> w + 1" by fact
  qed
  then show ?thesis by (simp add: concat_singletons)
qed

lemma monthly_loop_plain:
  assumes "u \<le> w + 1"
  shows "monthly_loop False (end_before (unit_day MONTHLY (w + 1))) (at_day (unit_day MONTHLY u)) []
           = map (unit_label MONTHLY) [u..w]"
proof -
  let ?E = "end_before (unit_day MONTHLY (w + 1))"
  let ?C = "\<lambda>u. at_day (unit_day MONTHLY u)"
  have sup: "supported MONTHLY" by (simp add: supported_def)
  have "concat (map (\<lambda>t. [t]) (monthly_loop False ?E (?C u) []))
          = concat (map (\<lambda>t. [t]) []) @ map (unit_label MONTHLY) [u..w] \<and>
        (\<forall>t\<in>set (monthly_loop False ?E (?C u) []). t \<in> set [] \<or> [t] \<noteq> [])"
  proof (rule walk_units[where P = "\<lambda>c. unix c \<le> unix ?E"
        and nxt = "\<lambda>c. snd (monthly_step False ?E c)" and out = "\<lambda>c. fst (monthly_step False ?E c)"
        and C = ?C and w = w])
    show "monthly_loop False ?E c acc =
            (if unix c \<le> unix ?E
             then monthly_loop False ?E (snd (monthly_step False ?E c)) (acc @ [fst (monthly_step False ?E c)])
             else acc)" for c acc
      by (rule monthly_loop.simps)
    show "(unix (?C v) \<le> unix ?E) = (v \<le> w)" for v
      by (rule unit_cursor_cond[OF sup])
    show "\<exists>v'. v < v' \<and> v' \<le> w + 1 \<and> snd (monthly_step False ?E (?C v)) = ?C v' \<and>
            [fst (monthly_step False ?E (?C v))] = map (unit_label MONTHLY) [v..v' - 1]"
      if "v \<le> w" for v
      using that by (intro exI[of _ "v + 1"]) (simp add: monthly_step_plain)
    show "u \<le> w + 1" by fact
  qed
  then show ?thesis by (simp add: concat_singletons)
qed

lemma yearly_loop_plain:
  assumes "u \<le> w + 1"
  shows "yearly_loop (end_before (unit_day YEARLY (w + 1))) (at_day (unit_day YEARLY u)) []
           = map (unit_label YEARLY) [u..w]"
proof -
  let ?E = "end_before (unit_day YEARLY (w + 1))"
  let ?C = "\<lambda>u. at_day (unit_day YEARLY u)"
  have sup: "supported YEARLY" by (simp add: supported_def)
  have "concat (map (\<lambda>t. [t]) (yearly_loop ?E (?C u) []))
          = concat (map (\<lambda>t. [t]) []) @ map (unit_label YEARLY) [u..w] \<and>
        (\<forall>t\<in>set (yearly_loop ?E (?C u) []). t \<in> set [] \<or> [t] \<noteq> [])"
  proof (rule walk_units[where P = "\<lambda>c. unix c \<le> unix ?E"
        and nxt = "\<lambda>c. snd (yearly_step c)" and out = "\<lambda>c. fst (yearly_step c)"
        and C = ?C and w = w])
    show "yearly_loop ?E c acc =
            (if unix c \<le> unix ?E
             then yearly_loop ?E (snd (yearly_step c)) (acc @ [fst (yearly_step c)])
             else acc)" for c acc
      by (rule yearly_loop.simps)
    show "(unix (?C v) \<le> unix ?E) = (v \<le> w)" for v
      by (rule unit_cursor_cond[OF sup])
    show "\<exists>v'. v < v' \<and> v' \<le> w + 1 \<and> snd (yearly_step (?C v)) = ?C v' \<and>
            [fst (yearly_step (?C v))] = map (unit_label YEARLY) [v..v' - 1]"
      if "v \<le> w" for v
      using that by (intro exI[of _ "v + 1"]) (simp add: yearly_step_unit)
    show "u \<le> w + 1" by fact
  qed
  then show ?thesis by (simp add: concat_singletons)
qed

lemma unit_loop_plain:
  assumes "supported g" "u \<le> w + 1"
  shows "unit_loop g False w u = map (unit_label g) [u..w]"
proof -
  have "unit_day DAILY x = x" for x by (simp add: unit_day_def)
  then show ?thesis
    using assms(1) daily_loop_plain[OF assms(2)] monthly_loop_plain[OF assms(2)]
      yearly_loop_plain[OF assms(2)]
    unfolding supported_def by (auto simp: unit_loop_def)
qed

lemma daily_loop_group:
  assumes "u \<le> w + 1"
  shows "concat (map (expand_suffix DAILY) (daily_loop True (end_before (w + 1)) (at_day u) []))
           = map (unit_label DAILY) [u..w] \<and>
         (\<forall>t\<in>set (daily_loop True (end_before (w + 1)) (at_day u) []). expand_suffix DAILY t \<noteq> [])"
proof -
  let ?E = "end_before (w + 1)"
  have "concat (map (expand_suffix DAILY) (daily_loop True ?E (at_day u) []))
          = concat (map (expand_suffix DAILY) []) @ map (unit_label DAILY) [u..w] \<and>
        (\<forall>t\<in>set (daily_loop True ?E (at_day u) []). t \<in> set [] \<or> expand_suffix DAILY t \<noteq> [])"
  proof (rule walk_units[where P = "\<lambda>c. unix c \<le> unix ?E"
        and nxt = "\<lambda>c. snd (daily_step True ?E c)" and out = "\<lambda>c. fst (daily_step True ?E c)"
        and C = at_day and w = w])
    show "daily_loop True ?E c acc =
            (if unix c \<le> unix ?E
             then daily_loop True ?E (snd (daily_step True ?E c)) (acc @ [fst (daily_step True ?E c)])
             else acc)" for c acc
      by (rule daily_loop.simps)
    show "(unix (at_day v) \<le> unix ?E) = (v \<le> w)" for v
      unfolding at_day_before_end by linarith
    show "\<exists>v'. v < v' \<and> v' \<le> w + 1 \<and> snd (daily_step True ?E (at_day v)) = at_day v' \<and>
            expand_suffix DAILY (fst (daily_step True ?E (at_day v))) = map (unit_label DAILY) [v..v' - 1]"
      if "v \<le> w" for v
      by (rule daily_group_step[OF that])
    show "u \<le> w + 1" by fact
  qed
  then show ?thesis by simp
qed

lemma monthly_loop_group:
  assumes "u \<le> w + 1"
  shows "concat (map (expand_suffix MONTHLY)
            (monthly_loop True (end_before (unit_day MONTHLY (w + 1))) (at_day (unit_day MONTHLY u)) []))
           = map (unit_label MONTHLY) [u..w] \<and>
         (\<forall>t\<in>set (monthly_loop True (end_before (unit_day MONTHLY (w + 1)))
                     (at_day (unit_day MONTHLY u)) []). expand_suffix MONTHLY t \<noteq> [])"
proof -
  let ?E = "end_before (unit_day MONTHLY (w + 1))"
  let ?C = "\<lambda>u. at_day (unit_day MONTHLY u)"
  have sup: "supported MONTHLY" by (simp add: supported_def)
  have "concat (map (expand_suffix MONTHLY) (monthly_loop True ?E (?C u) []))
          = concat (map (expand_suffix MONTHLY) []) @ map (unit_label MONTHLY) [u..w] \<and>
        (\<forall>t\<in>set (monthly_loop True ?E (?C u) []). t \<in> set [] \<or> expand_suffix MONTHLY t \<noteq> [])"
  proof (rule walk_units[where P = "\<lambda>c. unix c \<le> unix ?E"
        and nxt = "\<lambda>c. snd (monthly_step True ?E c)" and out = "\<lambda>c. fst (monthly_step True ?E c)"
        and C = ?C and w = w])
    show "monthly_loop True ?E c acc =
            (if unix c \<le> unix ?E
             then monthly_loop True ?E (snd (monthly_step True ?E c)) (acc @ [fst (monthly_step True ?E c)])
             else acc)" for c acc
      by (rule monthly_loop.simps)
    show "(unix (?C v) \<le> unix ?E) = (v \<le> w)" for v
      by (rule unit_cursor_cond[OF sup])
    show "\<exists>v'. v < v' \<and> v' \<le> w + 1 \<and> snd (monthly_step True ?E (?C v)) = ?C v' \<and>
            expand_suffix MONTHLY (fst (monthly_step True ?E (?C v))) = map (unit_label MONTHLY) [v..v' - 1]"
      if "v \<le> w" for v
      by (rule monthly_group_step[OF that])
    show "u \<le> w + 1" by fact
  qed
  then show ?thesis by simp
qed

lemma concat_expand_labels:
  "supported g \<Longrightarrow> concat (map (expand_suffix g) (map (unit_label g) us)) = map (unit_label g) us"
  by (induction us) (simp_all add: expand_unit_label)

lemma unit_loop_expand:
  assumes "supported g" "u \<le> w + 1"
  shows "concat (map (expand_suffix g) (unit_loop g G w u)) = map (unit_label g) [u..w] \<and>
         (\<forall>t\<in>set (unit_loop g G w u). expand_suffix g t \<noteq> [])"
proof (cases "G \<and> g \<noteq> YEARLY")
  case True
  have "unit_day DAILY x = x" for x by (simp add: unit_day_def)
  then show ?thesis
    using True assms(1) daily_loop_group[OF assms(2)] monthly_loop_group[OF assms(2)]
    unfolding supported_def by (auto simp: unit_loop_def)
next
  case False
  then have "unit_loop g G w u = unit_loop g False w u"
    by (cases g) (auto simp: unit_loop_def)
  then have e: "unit_loop g G w u = map (unit_label g) [u..w]"
    by (simp add: unit_loop_plain[OF assms])
  have "\<forall>t\<in>set (map (unit_label g) [u..w]). expand_suffix g t \<noteq> []"
    by (auto simp: expand_unit_label[OF assms(1)])
  then show ?thesis
    unfolding e using concat_expand_labels[OF assms(1), of "[u..w]"] by blast
qed

subsection \<open>The range of dates\<close>

text \<open>
  For a time stamp in \<open>in_date_range\<close>, the time stamp, its shift to the offset \<open>+09:00\<close>,
  the start of the day, month or year that contains it and the start of the next one are all
  within the limits of a \<^verbatim>\<open>Date\<close>. The cursors and end markers of \<^verbatim>\<open>indexesByTimeRange\<close> lie
  between the start of the year that contains \<open>startAt\<close> and the start of the year after the
  one that contains \<open>endAt\<close>; so for a range of such time stamps no \<^verbatim>\<open>Date\<close> of the code is
  invalid.
\<close>

lemma unit_length: "supported g \<Longrightarrow> unit_day g (u + 1) \<le> unit_day g u + 366"
proof -
  assume "supported g"
  then consider "g = DAILY" | "g = MONTHLY" | "g = YEARLY" by (auto simp: supported_def)
  then show ?thesis
  proof cases
    case 1
    then show ?thesis by (simp add: unit_day_def)
  next
    case 2
    have "MakeDay 0 (12 * (u div 12) + u mod 12 + 1) 1
            \<le> MakeDay 0 (12 * (u div 12) + u mod 12) 1 + 366"
      unfolding month_day[OF month_split(2,3)] month_day_next[OF month_split(2,3)]
      using monthStart_step[OF month_split(2,3)[of u], where y = "u div 12"]
        daysInMonth_range(2)[of "u div 12" "u mod 12"]
      by simp
    then show ?thesis using 2 by (simp add: unit_day_def)
  next
    case 3
    then show ?thesis
      using DaysInYear_cases[of u] by (auto simp: unit_day_def DayFromYear_step)
  qed
qed

lemma dates_within_limit:
  assumes "supported g" "in_date_range t"
  shows "- maxDate \<le> msPerDay * unit_day g (unit_of g t)"
    "msPerDay * unit_day g (unit_of g t + 1) \<le> maxDate"
proof -
  define n where "n = local_day t"
  define a where "a = unit_day g (unit_of g t)"
  define b where "b = unit_day g (unit_of g t + 1)"
  have l: "86400 * n - 32400 \<le> t" "t < 86400 * (n + 1) - 32400"
    unfolding n_def by (rule local_day_bracket)+
  have u: "a \<le> n" "n < b" unfolding a_def b_def n_def by (rule unit_day_of_local[OF assms(1)])+
  have w: "b \<le> a + 366" unfolding a_def b_def by (rule unit_length[OF assms(1)])
  have t: "- 8639968291200 \<le> t" "t \<le> 8639968291200"
    using assms(2) by (simp_all add: in_date_range_def)
  have "n \<le> a + 365" using u(2) w by simp
  then have "86400 * n \<le> 86400 * a + 31536000" by simp
  then have "- 8640000000000 \<le> 86400 * a" using l(2) t(1) by simp
  then show "- maxDate \<le> msPerDay * unit_day g (unit_of g t)"
    unfolding a_def[symmetric] by (simp add: maxDate_def msPerDay_def)
  have "b \<le> n + 366" using u(1) w by simp
  then have "86400 * b \<le> 86400 * n + 31622400" by simp
  then have "86400 * b \<le> 8640000000000" using l(1) t(2) by simp
  then show "msPerDay * unit_day g (unit_of g t + 1) \<le> maxDate"
    unfolding b_def[symmetric] by (simp add: maxDate_def msPerDay_def)
qed

lemma moments_within_limit:
  assumes "supported g" "in_date_range t"
  shows "\<bar>m_d (moment_unix t)\<bar> \<le> maxDate" "\<bar>m_d (utcOffset 9 (moment_unix t))\<bar> \<le> maxDate"
    "- maxDate \<le> m_d (at_day (unit_day g (unit_of g t)))"
    "m_d (at_day (unit_day g (unit_of g t + 1))) \<le> maxDate"
proof -
  have t: "- 8639968291200 \<le> t" "t \<le> 8639968291200"
    using assms(2) by (simp_all add: in_date_range_def)
  show "\<bar>m_d (moment_unix t)\<bar> \<le> maxDate" using t by (simp add: moment_unix_def maxDate_def)
  show "\<bar>m_d (utcOffset 9 (moment_unix t))\<bar> \<le> maxDate"
    using t by (simp add: utcOffset_unix maxDate_def)
  show "- maxDate \<le> m_d (at_day (unit_day g (unit_of g t)))"
    using dates_within_limit(1)[OF assms] by (simp add: at_day_def)
  show "m_d (at_day (unit_day g (unit_of g t + 1))) \<le> maxDate"
    using dates_within_limit(2)[OF assms] by (simp add: at_day_def)
qed

lemma unit_label_no_star: "supported g \<Longrightarrow> CHR ''*'' \<notin> set (unit_label g u)"
  unfolding supported_def
  by (auto simp: unit_label_day label_of_day_simps zeroFill_no_mark)

lemma distinct_prefixed: "distinct xs \<Longrightarrow> distinct (map (\<lambda>v. prefix @ v) xs)"
  by (simp add: distinct_map inj_on_def)

lemma plain_indexes:
  assumes "startAt \<le> endAt" "supported g"
  shows "indexesByTimeRange prefix startAt endAt g False
           = Inr (map (\<lambda>u. prefix @ unit_label g u) [unit_of g startAt..unit_of g endAt])"
proof -
  have le: "unit_of g startAt \<le> unit_of g endAt + 1"
    using unit_of_mono[OF assms(2,1)] by simp
  have "new_Set (map (unit_label g) [unit_of g startAt..unit_of g endAt])
          = map (unit_label g) [unit_of g startAt..unit_of g endAt]"
    by (rule new_Set_distinct[OF distinct_unit_labels[OF assms(2)]])
  then show ?thesis
    by (simp add: indexes_unit_loop[OF assms] unit_loop_plain[OF assms(2) le] comp_def)
qed

text \<open>
  C1. For a valid range (\<open>startAt \<le> endAt\<close>, epoch seconds, both within the range of dates)
  and each of the three partitions, \<^verbatim>\<open>indexesByTimeRange\<close> without group selection returns
  the prefixed labels of the units from the unit that contains \<open>startAt\<close> to the unit that
  contains \<open>endAt\<close>, one after the other in the order of time, each once: the list has no
  repetition. The units are the intervals \<open>unit_start g u \<le> t < unit_start g (u + 1)\<close>, which
  follow each other without gap or overlap. The units listed span the time from the start of
  the first, which is not after \<open>startAt\<close>, to the start of the one after the last, which is
  after \<open>endAt\<close>; every time stamp in that span lies in the unit \<open>unit_of\<close> gives for it,
  which is one of the units listed, and the label of that unit is the label \<^verbatim>\<open>format\<close> writes
  for the time stamp in the offset \<open>+09:00\<close>. A range inside one unit gives exactly one index
  name.
\<close>

theorem plain_indexes_are_the_units:
  assumes "startAt \<le> endAt" "supported g" "in_date_range startAt" "in_date_range endAt"
  shows "indexesByTimeRange prefix startAt endAt g False
           = Inr (map (\<lambda>u. prefix @ unit_label g u) [unit_of g startAt..unit_of g endAt]) \<and>
         distinct (map (\<lambda>u. prefix @ unit_label g u) [unit_of g startAt..unit_of g endAt]) \<and>
         unit_of g startAt \<le> unit_of g endAt \<and>
         unit_start g (unit_of g startAt) \<le> startAt \<and> endAt < unit_start g (unit_of g endAt + 1) \<and>
         (\<forall>t. unit_start g (unit_of g startAt) \<le> t \<and> t < unit_start g (unit_of g endAt + 1) \<longrightarrow>
              unit_of g startAt \<le> unit_of g t \<and> unit_of g t \<le> unit_of g endAt \<and>
              unit_start g (unit_of g t) \<le> t \<and> t < unit_start g (unit_of g t + 1) \<and>
              period_label g t = unit_label g (unit_of g t)) \<and>
         (\<forall>u. unit_of g startAt \<le> u \<and> u \<le> unit_of g endAt \<longrightarrow>
              unit_of g (unit_start g u) = u \<and> unit_start g u < unit_start g (u + 1)) \<and>
         (unit_of g startAt = unit_of g endAt \<longrightarrow>
            indexesByTimeRange prefix startAt endAt g False = Inr [prefix @ period_label g startAt])"
proof -
  have 1: "indexesByTimeRange prefix startAt endAt g False
           = Inr (map (\<lambda>u. prefix @ unit_label g u) [unit_of g startAt..unit_of g endAt])"
    by (rule plain_indexes[OF assms(1,2)])
  have "distinct (map (\<lambda>v. prefix @ v) (map (unit_label g) [unit_of g startAt..unit_of g endAt]))"
    by (rule distinct_prefixed[OF distinct_unit_labels[OF assms(2)]])
  then have 2: "distinct (map (\<lambda>u. prefix @ unit_label g u) [unit_of g startAt..unit_of g endAt])"
    by (simp add: comp_def)
  have 3: "unit_of g startAt \<le> unit_of g endAt" by (rule unit_of_mono[OF assms(2,1)])
  have 4: "unit_start g (unit_of g startAt) \<le> startAt" "endAt < unit_start g (unit_of g endAt + 1)"
    by (rule unit_bracket[OF assms(2)])+
  have 5: "unit_of g startAt \<le> unit_of g t \<and> unit_of g t \<le> unit_of g endAt \<and>
           unit_start g (unit_of g t) \<le> t \<and> t < unit_start g (unit_of g t + 1) \<and>
           period_label g t = unit_label g (unit_of g t)"
    if t: "unit_start g (unit_of g startAt) \<le> t \<and> t < unit_start g (unit_of g endAt + 1)" for t
  proof -
    have "unit_of g (unit_start g (unit_of g startAt)) \<le> unit_of g t"
      using t by (intro unit_of_mono[OF assms(2)]) simp
    then have a: "unit_of g startAt \<le> unit_of g t"
      by (simp add: unit_of_unit_start[OF assms(2)])
    have b: "unit_of g t \<le> unit_of g endAt"
    proof (rule ccontr)
      assume "\<not> unit_of g t \<le> unit_of g endAt"
      then have "\<not> unit_of g endAt + 1 > unit_of g t" by simp
      then have "\<not> unit_day g (unit_of g t) < unit_day g (unit_of g endAt + 1)"
        by (simp add: unit_day_less_iff[OF assms(2)])
      then have "unit_start g (unit_of g endAt + 1) \<le> unit_start g (unit_of g t)"
        by (simp add: unit_start_def)
      then show False using t unit_bracket(1)[OF assms(2), of t] by simp
    qed
    show ?thesis
      using a b unit_bracket[OF assms(2), of t] period_label_unit[OF assms(2), of t] by simp
  qed
  have 6: "unit_of g (unit_start g u) = u \<and> unit_start g u < unit_start g (u + 1)" for u
    using unit_of_unit_start[OF assms(2), of u] unit_day_step[OF assms(2), of u]
    by (simp add: unit_start_def)
  have 7: "indexesByTimeRange prefix startAt endAt g False = Inr [prefix @ period_label g startAt]"
    if "unit_of g startAt = unit_of g endAt"
    unfolding 1 using that by (simp add: period_label_unit[OF assms(2)])
  show ?thesis using 1 2 3 4 5 6 7 by blast
qed

lemma eval_units:
  "unit_of DAILY 1561161600 = 18069" "unit_of DAILY 1561301999 = 18070"
  "unit_label DAILY 18069 = ''2019.06.22''" "unit_label DAILY 18070 = ''2019.06.23''"
  by code_simp+

theorem plain_indexes_are_the_units_witness:
  "(1561161600 :: int) \<le> 1561301999 \<and> supported DAILY \<and>
   in_date_range 1561161600 \<and> in_date_range 1561301999 \<and>
   indexesByTimeRange ''test_'' 1561161600 1561301999 DAILY False
     = Inr [''test_2019.06.22'', ''test_2019.06.23''] \<and>
   indexesByTimeRange ''test_'' 1561161600 1561161600 DAILY False = Inr [''test_2019.06.22'']"
proof -
  have s: "supported DAILY" by (simp add: supported_def)
  have r: "in_date_range 1561161600" "in_date_range 1561301999"
    by (simp_all add: in_date_range_def)
  have u: "[18069..18070] = [18069, 18070 :: int]" "[18069..18069] = [18069 :: int]"
    by (simp_all add: upto.simps)
  have a: "indexesByTimeRange ''test_'' 1561161600 1561301999 DAILY False
     = Inr [''test_2019.06.22'', ''test_2019.06.23'']"
    using plain_indexes_are_the_units[of 1561161600 1561301999 DAILY "''test_''"] s r
    by (simp add: eval_units u)
  have b: "indexesByTimeRange ''test_'' 1561161600 1561161600 DAILY False = Inr [''test_2019.06.22'']"
    using plain_indexes_are_the_units[of 1561161600 1561161600 DAILY "''test_''"] s r
    by (simp add: eval_units u)
  show ?thesis using s r a b by simp
qed

lemma eval_five_years:
  "unit_of DAILY 1583766000 = 18331" "unit_of DAILY 1736434800 = 20098"
  by code_simp+

text \<open>
  C2, as stated, fails. The daily range from 2020-03-10 to 2025-01-10 without group selection
  gives 1768 index names, far more than 100, and they are returned as they are, not replaced
  by the single name \<open>test_*\<close>. The test of the repository expects the 1768 names.
\<close>

theorem no_wildcard_counterexample:
  "\<not> isl (indexesByTimeRange ''test_'' 1583766000 1736434800 DAILY False) \<and>
   length (projr (indexesByTimeRange ''test_'' 1583766000 1736434800 DAILY False)) = 1768 \<and>
   indexesByTimeRange ''test_'' 1583766000 1736434800 DAILY False \<noteq> Inr [''test_*'']"
proof -
  have s: "supported DAILY" by (simp add: supported_def)
  have v: "(1583766000 :: int) \<le> 1736434800" by simp
  have e: "indexesByTimeRange ''test_'' 1583766000 1736434800 DAILY False
             = Inr (map (\<lambda>u. ''test_'' @ unit_label DAILY u) [18331..20098])"
    using plain_indexes[OF v s, of "''test_''"] by (simp only: eval_five_years)
  have l: "length (map (\<lambda>u. ''test_'' @ unit_label DAILY u) [18331..20098]) = 1768"
    by (simp add: length_upto)
  have "map (\<lambda>u. ''test_'' @ unit_label DAILY u) [18331..20098] \<noteq> [''test_*'']"
  proof
    assume "map (\<lambda>u. ''test_'' @ unit_label DAILY u) [18331..20098] = [''test_*'']"
    then have "length (map (\<lambda>u. ''test_'' @ unit_label DAILY u) [18331..20098]) = length [''test_*'']"
      by (rule arg_cong)
    then show False unfolding l by simp
  qed
  then show ?thesis using l by (simp add: e)
qed

lemma grouped_suffixes:
  assumes "supported g" "u \<le> w + 1"
  shows "distinct (unit_loop g G w u)" "new_Set (unit_loop g G w u) = unit_loop g G w u"
    "CHR ''*'' # [] \<notin> set (unit_loop g G w u)"
proof -
  note x = unit_loop_expand[OF assms, of G]
  have d: "distinct (concat (map (expand_suffix g) (unit_loop g G w u)))"
    using x distinct_unit_labels[OF assms(1), of u w] by simp
  show dl: "distinct (unit_loop g G w u)"
    by (rule distinct_of_expansion[OF d]) (use x in blast)
  show "new_Set (unit_loop g G w u) = unit_loop g G w u"
    by (rule new_Set_distinct[OF dl])
  show "CHR ''*'' # [] \<notin> set (unit_loop g G w u)"
  proof
    assume m: "''*'' \<in> set (unit_loop g G w u)"
    have "expand_suffix g ''*'' = [''*'']" by (simp add: expand_suffix_def is_group_def)
    then have "''*'' \<in> set (concat (map (expand_suffix g) (unit_loop g G w u)))"
      using m by (auto intro!: bexI[of _ "''*''"])
    then have "''*'' \<in> set (map (unit_label g) [u..w])" using x by simp
    then obtain v where "unit_label g v = ''*''" by auto
    then show False using unit_label_no_star[OF assms(1), of v] by simp
  qed
qed

text \<open>
  C2, amended. \<^verbatim>\<open>indexesByTimeRange\<close> has no limit on the number of index names: for every
  valid range within the range of dates and supported partition, with or without group
  selection, it returns the names themselves and never the name made of the prefix and \<open>*\<close>;
  without group selection there is one name for each unit of the range, however many there
  are.
\<close>

theorem no_wildcard_fallback:
  assumes "startAt \<le> endAt" "supported g" "in_date_range startAt" "in_date_range endAt"
  shows "\<exists>indexes. indexesByTimeRange prefix startAt endAt g G = Inr indexes \<and>
           prefix @ ''*'' \<notin> set indexes \<and>
           (\<not> G \<longrightarrow> length indexes = nat (unit_of g endAt - unit_of g startAt + 1))"
proof -
  have le: "unit_of g startAt \<le> unit_of g endAt + 1"
    using unit_of_mono[OF assms(2,1)] by simp
  define L where "L = unit_loop g G (unit_of g endAt) (unit_of g startAt)"
  have i: "indexesByTimeRange prefix startAt endAt g G = Inr (map (\<lambda>v. prefix @ v) L)"
    by (simp add: indexes_unit_loop[OF assms(1,2)] L_def grouped_suffixes(2)[OF assms(2) le])
  have n: "prefix @ ''*'' \<notin> set (map (\<lambda>v. prefix @ v) L)"
    using grouped_suffixes(3)[OF assms(2) le, of G] by (auto simp: L_def)
  have l: "length (map (\<lambda>v. prefix @ v) L) = nat (unit_of g endAt - unit_of g startAt + 1)"
    if "\<not> G"
    using that by (simp add: L_def unit_loop_plain[OF assms(2) le])
  show ?thesis using i n l by blast
qed

theorem no_wildcard_fallback_witness:
  "(1583766000 :: int) \<le> 1736434800 \<and> supported DAILY \<and>
   in_date_range 1583766000 \<and> in_date_range 1736434800 \<and>
   (\<exists>indexes. indexesByTimeRange ''test_'' 1583766000 1736434800 DAILY False = Inr indexes \<and>
      ''test_*'' \<notin> set indexes \<and> length indexes = 1768)"
proof -
  have s: "supported DAILY" by (simp add: supported_def)
  have v: "(1583766000 :: int) \<le> 1736434800" by simp
  have r: "in_date_range 1583766000" "in_date_range 1736434800"
    by (simp_all add: in_date_range_def)
  from no_wildcard_fallback[OF v s r, of "''test_''" False]
  show ?thesis using s r by (simp add: eval_five_years)
qed

lemma expand_prefixed:
  "expand_token prefix g (prefix @ s) = map (\<lambda>v. prefix @ v) (expand_suffix g s)"
  by (simp add: expand_token_def)

lemma concat_expand_prefixed:
  "concat (map (expand_token prefix g) (map (\<lambda>v. prefix @ v) xs))
     = map (\<lambda>v. prefix @ v) (concat (map (expand_suffix g) xs))"
  by (induction xs) (simp_all add: expand_prefixed)

text \<open>
  C3. For a valid range and each of the three partitions, the index names with group
  selection stand for the same units as the index names without it: when every group token
  (a year, or a year and a month, followed by \<open>.*\<close>) is replaced by the labels of the units of
  the partition in that year or month, and every other token is kept, the result is the list
  of names without group selection, in the same order; so the two cover the same set.
\<close>

theorem group_select_same_units:
  assumes "startAt \<le> endAt" "supported g"
  shows "\<exists>grouped plain.
           indexesByTimeRange prefix startAt endAt g True = Inr grouped \<and>
           indexesByTimeRange prefix startAt endAt g False = Inr plain \<and>
           concat (map (expand_token prefix g) grouped) = plain \<and>
           set (concat (map (expand_token prefix g) grouped)) = set plain"
proof -
  have le: "unit_of g startAt \<le> unit_of g endAt + 1"
    using unit_of_mono[OF assms(2,1)] by simp
  define L where "L = unit_loop g True (unit_of g endAt) (unit_of g startAt)"
  define us where "us = map (unit_label g) [unit_of g startAt..unit_of g endAt]"
  have i: "indexesByTimeRange prefix startAt endAt g True = Inr (map (\<lambda>v. prefix @ v) L)"
    by (simp add: indexes_unit_loop[OF assms] L_def grouped_suffixes(2)[OF assms(2) le])
  have p: "indexesByTimeRange prefix startAt endAt g False = Inr (map (\<lambda>v. prefix @ v) us)"
    by (simp add: plain_indexes[OF assms] us_def comp_def)
  have "concat (map (expand_suffix g) L) = us"
    using unit_loop_expand[OF assms(2) le, of True] by (simp add: L_def us_def)
  then have c: "concat (map (expand_token prefix g) (map (\<lambda>v. prefix @ v) L)) = map (\<lambda>v. prefix @ v) us"
    by (simp only: concat_expand_prefixed)
  show ?thesis using i p c by (intro exI[of _ "map (\<lambda>v. prefix @ v) L"] exI[of _ "map (\<lambda>v. prefix @ v) us"]) simp
qed


lemma eval_year_and_three_days:
  "indexesByTimeRange ''test_'' 1546300800 1578009599 DAILY True
     = Inr [''test_2019.*'', ''test_2020.01.01'', ''test_2020.01.02'', ''test_2020.01.03'']"
  "unit_of DAILY 1546300800 = 17897" "unit_of DAILY 1578009599 = 18264"
  by code_simp+

theorem group_select_same_units_witness:
  "(1546300800 :: int) \<le> 1578009599 \<and> supported DAILY \<and>
   indexesByTimeRange ''test_'' 1546300800 1578009599 DAILY True
     = Inr [''test_2019.*'', ''test_2020.01.01'', ''test_2020.01.02'', ''test_2020.01.03''] \<and>
   indexesByTimeRange ''test_'' 1546300800 1578009599 DAILY False
     = Inr (concat (map (expand_token ''test_'' DAILY)
              [''test_2019.*'', ''test_2020.01.01'', ''test_2020.01.02'', ''test_2020.01.03''])) \<and>
   length (concat (map (expand_token ''test_'' DAILY)
              [''test_2019.*'', ''test_2020.01.01'', ''test_2020.01.02'', ''test_2020.01.03''])) = 368"
proof -
  have s: "supported DAILY" by (simp add: supported_def)
  have v: "(1546300800 :: int) \<le> 1578009599" by simp
  let ?g = "[''test_2019.*'', ''test_2020.01.01'', ''test_2020.01.02'', ''test_2020.01.03'']"
  from group_select_same_units[OF v s, of "''test_''"]
  obtain grouped plain where
    g: "indexesByTimeRange ''test_'' 1546300800 1578009599 DAILY True = Inr grouped"
    and p: "indexesByTimeRange ''test_'' 1546300800 1578009599 DAILY False = Inr plain"
    and c: "concat (map (expand_token ''test_'' DAILY) grouped) = plain"
    by blast
  have "grouped = ?g" using g unfolding eval_year_and_three_days(1) by simp
  then have e: "indexesByTimeRange ''test_'' 1546300800 1578009599 DAILY False
                  = Inr (concat (map (expand_token ''test_'' DAILY) ?g))"
    using p c by simp
  have "indexesByTimeRange ''test_'' 1546300800 1578009599 DAILY False
          = Inr (map (\<lambda>u. ''test_'' @ unit_label DAILY u) [17897..18264])"
    using plain_indexes[OF v s, of "''test_''"] by (simp only: eval_year_and_three_days(2,3))
  then have "concat (map (expand_token ''test_'' DAILY) ?g)
               = map (\<lambda>u. ''test_'' @ unit_label DAILY u) [17897..18264]"
    unfolding e by simp
  then have l: "length (concat (map (expand_token ''test_'' DAILY) ?g)) = 368"
    by (simp only: length_map length_upto)
  show ?thesis using s v eval_year_and_three_days(1) e l by blast
qed

definition unit_end :: "PeriodType \<Rightarrow> int \<Rightarrow> int" where
  "unit_end g u = unit_start g (u + 1) - 1"

lemma unit_end_le: "unit_end g a \<le> unit_end h b \<longleftrightarrow> unit_day g (a + 1) \<le> unit_day h (b + 1)"
  unfolding unit_end_def unit_start_def by linarith

lemma is_group_year: "is_group (year_group y)"
  unfolding year_group_def by (rule is_group_mark)

lemma is_group_month: "is_group (month_group y m)"
  using is_group_mark[of "zeroFill y 4 @ ''.'' @ zeroFill (m + 1) 2"] by (simp add: month_group_def)

subsection \<open>The loops, one step at a time\<close>

lemma loop_acc:
  fixes L :: "moment \<Rightarrow> string list \<Rightarrow> string list"
  assumes rec: "\<And>c acc. L c acc = (if unix c \<le> e then L (nxt c) (acc @ [out c]) else acc)"
    and fwd: "\<And>c. unix c < unix (nxt c)"
  shows "L c acc = acc @ L c []"
proof (induction "nat (e + 1 - unix c)" arbitrary: c acc rule: less_induct)
  case less
  show ?case
  proof (cases "unix c \<le> e")
    case False
    then have "L c a = a" for a by (subst rec) simp
    then show ?thesis by simp
  next
    case True
    have l: "L c a = L (nxt c) (a @ [out c])" for a using True by (subst rec) simp
    have m: "nat (e + 1 - unix (nxt c)) < nat (e + 1 - unix c)" using True fwd[of c] by simp
    have "L c acc = (acc @ [out c]) @ L (nxt c) []"
      unfolding l[of acc] by (rule less.hyps[OF m])
    moreover have "L c [] = [out c] @ L (nxt c) []"
      unfolding l[of "[]"] using less.hyps[OF m, of "[out c]"] by simp
    ultimately show ?thesis by simp
  qed
qed

lemma daily_loop_acc: "daily_loop G E c acc = acc @ daily_loop G E c []"
  by (rule loop_acc[where e = "unix E" and nxt = "\<lambda>c. snd (daily_step G E c)"
        and out = "\<lambda>c. fst (daily_step G E c)"])
    (rule daily_loop.simps, rule daily_step_forward)

lemma monthly_loop_acc: "monthly_loop G E c acc = acc @ monthly_loop G E c []"
  by (rule loop_acc[where e = "unix E" and nxt = "\<lambda>c. snd (monthly_step G E c)"
        and out = "\<lambda>c. fst (monthly_step G E c)"])
    (rule monthly_loop.simps, rule monthly_step_forward)

lemma yearly_loop_acc: "yearly_loop E c acc = acc @ yearly_loop E c []"
  by (rule loop_acc[where e = "unix E" and nxt = "\<lambda>c. snd (yearly_step c)"
        and out = "\<lambda>c. fst (yearly_step c)"])
    (rule yearly_loop.simps, rule yearly_step_forward)

lemma daily_loop_step:
  "daily_loop G (end_before (w + 1)) (at_day n) [] =
     (if w < n then []
      else fst (daily_step G (end_before (w + 1)) (at_day n))
           # daily_loop G (end_before (w + 1)) (snd (daily_step G (end_before (w + 1)) (at_day n))) [])"
proof (cases "w < n")
  case True
  then show ?thesis by (subst daily_loop.simps) (simp add: at_day_before_end)
next
  case False
  then have "unix (at_day n) \<le> unix (end_before (w + 1))" by (simp add: at_day_before_end)
  then have "daily_loop G (end_before (w + 1)) (at_day n) [] =
      daily_loop G (end_before (w + 1)) (snd (daily_step G (end_before (w + 1)) (at_day n)))
        [fst (daily_step G (end_before (w + 1)) (at_day n))]"
    by (subst daily_loop.simps) simp
  then show ?thesis using False
    by (simp add: daily_loop_acc[of _ _ _ "[fst (daily_step G (end_before (w + 1)) (at_day n))]"])
qed

lemma unit_loop_daily:
  "unit_loop DAILY True w n =
     (if w < n then []
      else if MonthFromDay n = 0 \<and> DateFromDay n = 1 \<and>
              unit_end YEARLY (YearFromDay n) \<le> unit_end DAILY w
      then year_group (YearFromDay n) # unit_loop DAILY True w (unit_day YEARLY (YearFromDay n + 1))
      else if DateFromDay n = 1 \<and>
              unit_end MONTHLY (12 * YearFromDay n + MonthFromDay n) \<le> unit_end DAILY w
      then month_group (YearFromDay n) (MonthFromDay n)
           # unit_loop DAILY True w (unit_day MONTHLY (12 * YearFromDay n + MonthFromDay n + 1))
      else unit_label DAILY n # unit_loop DAILY True w (n + 1))"
proof -
  define A where "A = (MonthFromDay n = 0 \<and> DateFromDay n = 1 \<and> next_year_day n \<le> w + 1)"
  define B where "B = (DateFromDay n = 1 \<and> next_month_day n \<le> w + 1)"
  have y: "unit_day YEARLY (YearFromDay n + 1) = next_year_day n"
    by (simp add: unit_day_def next_year_day_def)
  have m: "unit_day MONTHLY (12 * YearFromDay n + MonthFromDay n + 1) = next_month_day n"
    by (simp add: unit_day_def next_month_day_def month_day_next[OF MonthFromDay_range])
  have d: "unit_day DAILY x = x" for x by (simp add: unit_day_def)
  have l: "unit_loop DAILY True w x = daily_loop True (end_before (w + 1)) (at_day x) []" for x
    by (simp add: unit_loop_def d)
  have st: "daily_step True (end_before (w + 1)) (at_day n) =
     (if A then (year_group (YearFromDay n), at_day (next_year_day n))
      else if B then (month_group (YearFromDay n) (MonthFromDay n), at_day (next_month_day n))
      else (unit_label DAILY n, at_day (n + 1)))"
    unfolding A_def B_def by (rule daily_step_group)
  have "daily_loop True (end_before (w + 1)) (at_day n) [] =
     (if w < n then []
      else if A then year_group (YearFromDay n)
                     # daily_loop True (end_before (w + 1)) (at_day (next_year_day n)) []
      else if B then month_group (YearFromDay n) (MonthFromDay n)
                     # daily_loop True (end_before (w + 1)) (at_day (next_month_day n)) []
      else unit_label DAILY n # daily_loop True (end_before (w + 1)) (at_day (n + 1)) [])"
    by (subst daily_loop_step) (simp add: st)
  then show ?thesis
    unfolding l unit_end_le y m d A_def B_def .
qed

lemma monthly_loop_step:
  "monthly_loop G (end_before (unit_day MONTHLY (w + 1))) (at_day (unit_day MONTHLY u)) [] =
     (if w < u then []
      else fst (monthly_step G (end_before (unit_day MONTHLY (w + 1))) (at_day (unit_day MONTHLY u)))
           # monthly_loop G (end_before (unit_day MONTHLY (w + 1)))
               (snd (monthly_step G (end_before (unit_day MONTHLY (w + 1))) (at_day (unit_day MONTHLY u)))) [])"
proof -
  have sup: "supported MONTHLY" by (simp add: supported_def)
  note c = unit_cursor_cond[OF sup, of u w]
  show ?thesis
  proof (cases "w < u")
    case True
    then show ?thesis using c by (subst monthly_loop.simps) simp
  next
    case False
    then have "monthly_loop G (end_before (unit_day MONTHLY (w + 1))) (at_day (unit_day MONTHLY u)) [] =
      monthly_loop G (end_before (unit_day MONTHLY (w + 1)))
        (snd (monthly_step G (end_before (unit_day MONTHLY (w + 1))) (at_day (unit_day MONTHLY u))))
        [fst (monthly_step G (end_before (unit_day MONTHLY (w + 1))) (at_day (unit_day MONTHLY u)))]"
      using c by (subst monthly_loop.simps) simp
    then show ?thesis using False
      by (simp add: monthly_loop_acc[of _ _ _
            "[fst (monthly_step G (end_before (unit_day MONTHLY (w + 1))) (at_day (unit_day MONTHLY u)))]"])
  qed
qed

lemma unit_loop_monthly:
  "unit_loop MONTHLY True w u =
     (if w < u then []
      else if u mod 12 = 0 \<and> unit_end YEARLY (u div 12) \<le> unit_end MONTHLY w
      then year_group (u div 12) # unit_loop MONTHLY True w (u + 12)
      else unit_label MONTHLY u # unit_loop MONTHLY True w (u + 1))"
proof -
  have sup: "supported MONTHLY" by (simp add: supported_def)
  define A where "A = (u mod 12 = 0 \<and> u + 11 \<le> w)"
  have y: "unit_day YEARLY (u div 12 + 1) = unit_day MONTHLY (12 * (u div 12 + 1))"
    unfolding year_of_months by (simp add: unit_day_def)
  have c: "u mod 12 = 0 \<and> unit_end YEARLY (u div 12) \<le> unit_end MONTHLY w \<longleftrightarrow> A"
  proof (cases "u mod 12 = 0")
    case True
    then have z: "12 * (u div 12 + 1) = u + 12" using month_split(1)[of u] by simp
    have "unit_day MONTHLY (u + 12) \<le> unit_day MONTHLY (w + 1) \<longleftrightarrow> u + 11 \<le> w"
      using unit_day_less_iff[OF sup, of "w + 1" "u + 12"] by auto
    then show ?thesis unfolding A_def unit_end_le y z using True by simp
  next
    case False
    then show ?thesis by (simp add: A_def)
  qed
  have l: "unit_loop MONTHLY True w x
             = monthly_loop True (end_before (unit_day MONTHLY (w + 1))) (at_day (unit_day MONTHLY x)) []" for x
    by (simp add: unit_loop_def)
  have st: "monthly_step True (end_before (unit_day MONTHLY (w + 1))) (at_day (unit_day MONTHLY u)) =
     (if A then (year_group (u div 12), at_day (unit_day MONTHLY (u + 12)))
      else (unit_label MONTHLY u, at_day (unit_day MONTHLY (u + 1))))"
    unfolding A_def by (rule monthly_step_group)
  have "monthly_loop True (end_before (unit_day MONTHLY (w + 1))) (at_day (unit_day MONTHLY u)) [] =
     (if w < u then []
      else if A then year_group (u div 12)
             # monthly_loop True (end_before (unit_day MONTHLY (w + 1))) (at_day (unit_day MONTHLY (u + 12))) []
      else unit_label MONTHLY u
             # monthly_loop True (end_before (unit_day MONTHLY (w + 1))) (at_day (unit_day MONTHLY (u + 1))) [])"
    by (subst monthly_loop_step) (simp add: st)
  then show ?thesis
    unfolding l c .
qed

lemma unit_loop_yearly:
  "unit_loop YEARLY G w y =
     (if w < y then [] else unit_label YEARLY y # unit_loop YEARLY G w (y + 1))"
proof -
  have sup: "supported YEARLY" by (simp add: supported_def)
  note c = unit_cursor_cond[OF sup, of y w]
  have l: "unit_loop YEARLY G w x
             = yearly_loop (end_before (unit_day YEARLY (w + 1))) (at_day (unit_day YEARLY x)) []" for x
    by (simp add: unit_loop_def)
  show ?thesis
  proof (cases "w < y")
    case True
    then show ?thesis unfolding l using c by (subst yearly_loop.simps) simp
  next
    case False
    then have "yearly_loop (end_before (unit_day YEARLY (w + 1))) (at_day (unit_day YEARLY y)) [] =
      yearly_loop (end_before (unit_day YEARLY (w + 1))) (at_day (unit_day YEARLY (y + 1)))
        [unit_label YEARLY y]"
      using c by (subst yearly_loop.simps) (simp add: yearly_step_unit)
    then show ?thesis unfolding l using False
      by (simp add: yearly_loop_acc[of _ _ "[unit_label YEARLY y]"])
  qed
qed

text \<open>
  C4, amended. For a valid range within the range of dates and a supported partition, the
  index names with group selection are the prefixed tokens the loop pushes from the start of
  the unit that contains \<open>startAt\<close>. Let \<open>w\<close> be the unit that contains \<open>endAt\<close>;
  \<open>unit_loop g True w c\<close> is what the loop pushes from a cursor on the start of unit \<open>c\<close>:
  nothing when \<open>c\<close> is after \<open>w\<close>, else one token, followed by what it pushes from the next
  cursor. The token is a group token exactly when the cursor is on the first unit of a
  coarser period (the first of January for the year and the first day of a month for the
  month, under a daily partition; January for the year, under a monthly partition) and that
  period ends no later than the unit that contains \<open>endAt\<close> does. The end of that unit, not
  \<open>endAt\<close> itself, is what the end of the period is compared with. Under a daily partition
  the year goes before the month. After a group token the cursor is on the start of the next
  such period; otherwise the label of the unit is emitted and the cursor moves one unit. A
  monthly partition gives group tokens of years only, a yearly partition none.
\<close>

theorem group_token_rule:
  assumes "startAt \<le> endAt" "supported g" "in_date_range startAt" "in_date_range endAt"
    and "unit_of g startAt \<le> c" "c \<le> unit_of g endAt + 1"
  shows
   "indexesByTimeRange prefix startAt endAt g True
      = Inr (map (\<lambda>v. prefix @ v) (unit_loop g True (unit_of g endAt) (unit_of g startAt))) \<and>
    (let w = unit_of g endAt;
         dailyYear = (MonthFromDay c = 0 \<and> DateFromDay c = 1 \<and>
                      unit_end YEARLY (YearFromDay c) \<le> unit_end DAILY w);
         dailyMonth = (DateFromDay c = 1 \<and>
                       unit_end MONTHLY (12 * YearFromDay c + MonthFromDay c) \<le> unit_end DAILY w);
         monthlyYear = (c mod 12 = 0 \<and> unit_end YEARLY (c div 12) \<le> unit_end MONTHLY w)
     in unit_loop g True w c =
          (if w < c then []
           else case g of
             DAILY \<Rightarrow>
               if dailyYear
               then year_group (YearFromDay c)
                    # unit_loop DAILY True w (unit_day YEARLY (YearFromDay c + 1))
               else if dailyMonth
               then month_group (YearFromDay c) (MonthFromDay c)
                    # unit_loop DAILY True w (unit_day MONTHLY (12 * YearFromDay c + MonthFromDay c + 1))
               else unit_label DAILY c # unit_loop DAILY True w (c + 1)
           | MONTHLY \<Rightarrow>
               if monthlyYear
               then year_group (c div 12) # unit_loop MONTHLY True w (c + 12)
               else unit_label MONTHLY c # unit_loop MONTHLY True w (c + 1)
           | YEARLY \<Rightarrow> unit_label YEARLY c # unit_loop YEARLY True w (c + 1)
           | OtherPeriodType other \<Rightarrow> []) \<and>
        (c \<le> w \<longrightarrow>
           (is_group (hd (unit_loop g True w c)) \<longleftrightarrow>
              (case g of
                 DAILY \<Rightarrow> dailyYear \<or> dailyMonth
               | MONTHLY \<Rightarrow> monthlyYear
               | YEARLY \<Rightarrow> False
               | OtherPeriodType other \<Rightarrow> False))))"
proof -
  define w where "w = unit_of g endAt"
  define dailyYear where "dailyYear = (MonthFromDay c = 0 \<and> DateFromDay c = 1 \<and>
                      unit_end YEARLY (YearFromDay c) \<le> unit_end DAILY w)"
  define dailyMonth where "dailyMonth = (DateFromDay c = 1 \<and>
                       unit_end MONTHLY (12 * YearFromDay c + MonthFromDay c) \<le> unit_end DAILY w)"
  define monthlyYear where "monthlyYear = (c mod 12 = 0 \<and> unit_end YEARLY (c div 12) \<le> unit_end MONTHLY w)"
  have s: "supported DAILY" "supported MONTHLY" "supported YEARLY" by (simp_all add: supported_def)
  note ng = unit_label_not_group[OF s(1)] unit_label_not_group[OF s(2)] unit_label_not_group[OF s(3)]
  have le: "unit_of g startAt \<le> unit_of g endAt + 1"
    using unit_of_mono[OF assms(2,1)] by simp
  have i: "indexesByTimeRange prefix startAt endAt g True
      = Inr (map (\<lambda>v. prefix @ v) (unit_loop g True (unit_of g endAt) (unit_of g startAt)))"
    by (simp add: indexes_unit_loop[OF assms(1,2)] grouped_suffixes(2)[OF assms(2) le])
  have d: "unit_loop DAILY True w c =
     (if w < c then []
      else if dailyYear
      then year_group (YearFromDay c) # unit_loop DAILY True w (unit_day YEARLY (YearFromDay c + 1))
      else if dailyMonth
      then month_group (YearFromDay c) (MonthFromDay c)
           # unit_loop DAILY True w (unit_day MONTHLY (12 * YearFromDay c + MonthFromDay c + 1))
      else unit_label DAILY c # unit_loop DAILY True w (c + 1))"
    unfolding dailyYear_def dailyMonth_def by (rule unit_loop_daily)
  have m: "unit_loop MONTHLY True w c =
     (if w < c then []
      else if monthlyYear
      then year_group (c div 12) # unit_loop MONTHLY True w (c + 12)
      else unit_label MONTHLY c # unit_loop MONTHLY True w (c + 1))"
    unfolding monthlyYear_def by (rule unit_loop_monthly)
  have y: "unit_loop YEARLY True w c =
     (if w < c then [] else unit_label YEARLY c # unit_loop YEARLY True w (c + 1))"
    by (rule unit_loop_yearly)
  have r: "unit_loop g True w c =
          (if w < c then []
           else case g of
             DAILY \<Rightarrow>
               if dailyYear
               then year_group (YearFromDay c)
                    # unit_loop DAILY True w (unit_day YEARLY (YearFromDay c + 1))
               else if dailyMonth
               then month_group (YearFromDay c) (MonthFromDay c)
                    # unit_loop DAILY True w (unit_day MONTHLY (12 * YearFromDay c + MonthFromDay c + 1))
               else unit_label DAILY c # unit_loop DAILY True w (c + 1)
           | MONTHLY \<Rightarrow>
               if monthlyYear
               then year_group (c div 12) # unit_loop MONTHLY True w (c + 12)
               else unit_label MONTHLY c # unit_loop MONTHLY True w (c + 1)
           | YEARLY \<Rightarrow> unit_label YEARLY c # unit_loop YEARLY True w (c + 1)
           | OtherPeriodType other \<Rightarrow> [])"
  proof (cases g)
    case YEARLY
    show ?thesis unfolding YEARLY by (subst y) simp
  next
    case MONTHLY
    show ?thesis unfolding MONTHLY by (subst m) simp
  next
    case DAILY
    show ?thesis unfolding DAILY by (subst d) simp
  next
    case (OtherPeriodType x)
    then show ?thesis using assms(2) by (simp add: supported_def)
  qed
  have h: "is_group (hd (unit_loop g True w c)) \<longleftrightarrow>
              (case g of
                 DAILY \<Rightarrow> dailyYear \<or> dailyMonth
               | MONTHLY \<Rightarrow> monthlyYear
               | YEARLY \<Rightarrow> False
               | OtherPeriodType other \<Rightarrow> False)" if "c \<le> w"
  proof (cases g)
    case YEARLY
    show ?thesis unfolding YEARLY using that by (subst y) (simp add: ng)
  next
    case MONTHLY
    show ?thesis unfolding MONTHLY using that by (subst m) (simp add: ng is_group_year)
  next
    case DAILY
    show ?thesis unfolding DAILY using that
      by (subst d) (simp add: ng is_group_year is_group_month)
  next
    case (OtherPeriodType x)
    then show ?thesis using assms(2) by (simp add: supported_def)
  qed
  show ?thesis
    unfolding Let_def w_def[symmetric] dailyYear_def[symmetric] dailyMonth_def[symmetric]
      monthlyYear_def[symmetric]
    using i r h unfolding w_def by blast
qed


lemma eval_two_years:
  "indexesByTimeRange ''test_'' 1561161600 1640919600 MONTHLY True =
     Inr [''test_2019.06'', ''test_2019.07'', ''test_2019.08'', ''test_2019.09'', ''test_2019.10'',
          ''test_2019.11'', ''test_2019.12'', ''test_2020.*'', ''test_2021.*'']"
  "fst (monthly_step True (endOf_month (utcOffset 9 (moment_unix 1640919600)))
          (startOf_month (utcOffset 9 (moment_unix 1609426800)))) = ''2021.*''"
  "unix (endOf_year (startOf_month (utcOffset 9 (moment_unix 1609426800)))) = 1640962799"
  "unit_end YEARLY 2021 = 1640962799"
  by code_simp+

text \<open>
  C4, as stated, fails where it asks that the end of the coarser period lie within the
  requested range. In the test of the repository for a monthly partition, the range ends on
  2021-12-31 at 12:00 (\<open>+09:00\<close>), twelve hours before the year does; the group token of
  2021 is emitted all the same, at the cursor on the first of January 2021.
\<close>

theorem group_token_counterexample:
  "indexesByTimeRange ''test_'' 1561161600 1640919600 MONTHLY True =
     Inr [''test_2019.06'', ''test_2019.07'', ''test_2019.08'', ''test_2019.09'', ''test_2019.10'',
          ''test_2019.11'', ''test_2019.12'', ''test_2020.*'', ''test_2021.*''] \<and>
   fst (monthly_step True (endOf_month (utcOffset 9 (moment_unix 1640919600)))
          (startOf_month (utcOffset 9 (moment_unix 1609426800)))) = ''2021.*'' \<and>
   is_group ''2021.*'' \<and>
   unix (endOf_year (startOf_month (utcOffset 9 (moment_unix 1609426800)))) = 1640962799 \<and>
   unit_end YEARLY 2021 = 1640962799 \<and>
   \<not> (unit_end YEARLY 2021 \<le> 1640919600)"
proof -
  have "is_group ''2021.*''" by (simp add: is_group_def)
  then show ?thesis using eval_two_years by simp
qed

lemma eval_rule_range:
  "unit_of DAILY 1546300800 = 17897" "unit_of DAILY 1578009599 = 18264"
  "unit_of DAILY 1559314800 = 18048" "unit_of DAILY 1562025599 = 18079"
  "unit_of MONTHLY 1561161600 = 24233" "unit_of MONTHLY 1640919600 = 24263"
  "unit_of YEARLY 1561161600 = 2019" "unit_of YEARLY 1640919600 = 2021"
  by code_simp+

lemma eval_rule_daily_year:
  "MonthFromDay 17897 = 0" "DateFromDay 17897 = 1" "YearFromDay 17897 = 2019"
  "unit_end YEARLY 2019 \<le> unit_end DAILY 18264"
  "year_group 2019 = ''2019.*''" "unit_day YEARLY 2020 = 18262"
  by code_simp+

lemma eval_rule_daily_days:
  "MonthFromDay 18262 = 0" "DateFromDay 18262 = 1" "YearFromDay 18262 = 2020"
  "\<not> unit_end YEARLY 2020 \<le> unit_end DAILY 18264"
  "\<not> unit_end MONTHLY 24240 \<le> unit_end DAILY 18264"
  "DateFromDay 18263 = 2" "DateFromDay 18264 = 3"
  "unit_label DAILY 18262 = ''2020.01.01''" "unit_label DAILY 18263 = ''2020.01.02''"
  "unit_label DAILY 18264 = ''2020.01.03''"
  by code_simp+

lemma eval_rule_daily_month:
  "MonthFromDay 18048 = 5" "DateFromDay 18048 = 1" "YearFromDay 18048 = 2019"
  "unit_end MONTHLY 24233 \<le> unit_end DAILY 18079"
  "month_group 2019 5 = ''2019.06.*''" "unit_day MONTHLY 24234 = 18078"
  by code_simp+

lemma eval_rule_monthly:
  "unit_end YEARLY 2020 \<le> unit_end MONTHLY 24263"
  "unit_end YEARLY 2021 \<le> unit_end MONTHLY 24263"
  "year_group 2020 = ''2020.*''" "year_group 2021 = ''2021.*''"
  "unit_label MONTHLY 24233 = ''2019.06''"
  "unit_label YEARLY 2019 = ''2019''"
  by code_simp+

theorem group_token_rule_witness:
  "(1546300800 :: int) \<le> 1578009599 \<and> supported DAILY \<and>
   in_date_range 1546300800 \<and> in_date_range 1578009599 \<and>
   indexesByTimeRange ''test_'' 1546300800 1578009599 DAILY True
     = Inr [''test_2019.*'', ''test_2020.01.01'', ''test_2020.01.02'', ''test_2020.01.03''] \<and>
   is_group ''2019.*'' \<and> \<not> is_group ''2020.01.01'' \<and>
   unit_loop DAILY True 18079 18048 = ''2019.06.*'' # unit_loop DAILY True 18079 18078 \<and>
   unit_loop MONTHLY True 24263 24240 = ''2020.*'' # unit_loop MONTHLY True 24263 24252 \<and>
   unit_loop MONTHLY True 24263 24252 = ''2021.*'' # unit_loop MONTHLY True 24263 24264 \<and>
   unit_loop MONTHLY True 24263 24264 = [] \<and>
   unit_loop MONTHLY True 24263 24233 = ''2019.06'' # unit_loop MONTHLY True 24263 24234 \<and>
   unit_loop YEARLY True 2021 2019 = ''2019'' # unit_loop YEARLY True 2021 2020"
proof -
  have s: "supported DAILY" "supported MONTHLY" "supported YEARLY" by (simp_all add: supported_def)
  have b: "in_date_range 1546300800" "in_date_range 1578009599" "in_date_range 1559314800"
    "in_date_range 1562025599" "in_date_range 1561161600" "in_date_range 1640919600"
    by (simp_all add: in_date_range_def)
  have v: "(1546300800 :: int) \<le> 1578009599" "(1559314800 :: int) \<le> 1562025599"
    "(1561161600 :: int) \<le> 1640919600" by simp_all
  note r = eval_rule_range
  have 0: "indexesByTimeRange ''test_'' 1546300800 1578009599 DAILY True
             = Inr (map (\<lambda>v. ''test_'' @ v) (unit_loop DAILY True 18264 17897))"
    using group_token_rule[OF v(1) s(1) b(1,2), of 17897 "''test_''"]
    by (simp add: r Let_def eval_rule_daily_year)
  have 1: "unit_loop DAILY True 18264 17897 = ''2019.*'' # unit_loop DAILY True 18264 18262"
    using group_token_rule[OF v(1) s(1) b(1,2), of 17897 "''test_''"]
    by (simp add: r Let_def eval_rule_daily_year)
  have g1: "is_group ''2019.*''"
    using group_token_rule[OF v(1) s(1) b(1,2), of 17897 "''test_''"]
    by (simp add: r Let_def eval_rule_daily_year 1)
  have 2: "unit_loop DAILY True 18264 18262 = ''2020.01.01'' # unit_loop DAILY True 18264 18263"
    using group_token_rule[OF v(1) s(1) b(1,2), of 18262 "''test_''"]
    by (simp add: r Let_def eval_rule_daily_days)
  have g2: "\<not> is_group ''2020.01.01''"
    using group_token_rule[OF v(1) s(1) b(1,2), of 18262 "''test_''"]
    by (simp add: r Let_def eval_rule_daily_days 2)
  have 3: "unit_loop DAILY True 18264 18263 = ''2020.01.02'' # unit_loop DAILY True 18264 18264"
    using group_token_rule[OF v(1) s(1) b(1,2), of 18263 "''test_''"]
    by (simp add: r Let_def eval_rule_daily_days)
  have 4: "unit_loop DAILY True 18264 18264 = ''2020.01.03'' # unit_loop DAILY True 18264 18265"
    using group_token_rule[OF v(1) s(1) b(1,2), of 18264 "''test_''"]
    by (simp add: r Let_def eval_rule_daily_days)
  have 5: "unit_loop DAILY True 18264 18265 = []"
    using group_token_rule[OF v(1) s(1) b(1,2), of 18265 "''test_''"]
    by (simp add: r Let_def)
  have a: "indexesByTimeRange ''test_'' 1546300800 1578009599 DAILY True
     = Inr [''test_2019.*'', ''test_2020.01.01'', ''test_2020.01.02'', ''test_2020.01.03'']"
    unfolding 0 1 2 3 4 5 by simp
  have 6: "unit_loop DAILY True 18079 18048 = ''2019.06.*'' # unit_loop DAILY True 18079 18078"
    using group_token_rule[OF v(2) s(1) b(3,4), of 18048 "''test_''"]
    by (simp add: r Let_def eval_rule_daily_month)
  have 7: "unit_loop MONTHLY True 24263 24240 = ''2020.*'' # unit_loop MONTHLY True 24263 24252"
    using group_token_rule[OF v(3) s(2) b(5,6), of 24240 "''test_''"]
    by (simp add: r Let_def eval_rule_monthly)
  have 10: "unit_loop MONTHLY True 24263 24252 = ''2021.*'' # unit_loop MONTHLY True 24263 24264"
    using group_token_rule[OF v(3) s(2) b(5,6), of 24252 "''test_''"]
    by (simp add: r Let_def eval_rule_monthly)
  have 11: "unit_loop MONTHLY True 24263 24264 = []"
    using group_token_rule[OF v(3) s(2) b(5,6), of 24264 "''test_''"]
    by (simp add: r Let_def)
  have 8: "unit_loop MONTHLY True 24263 24233 = ''2019.06'' # unit_loop MONTHLY True 24263 24234"
    using group_token_rule[OF v(3) s(2) b(5,6), of 24233 "''test_''"]
    by (simp add: r Let_def eval_rule_monthly)
  have 9: "unit_loop YEARLY True 2021 2019 = ''2019'' # unit_loop YEARLY True 2021 2020"
    using group_token_rule[OF v(3) s(3) b(5,6), of 2019 "''test_''"]
    by (simp add: r Let_def eval_rule_monthly)
  show ?thesis using v(1) s(1) b(1,2) a g1 g2 6 7 8 9 10 11 by blast
qed

section \<open>Entity ids\<close>

text \<open>
  The value of a property of an entity. \<^verbatim>\<open>entityId\<close> appends each value to a string, which
  converts it by \<^verbatim>\<open>ToString\<close>; a property that the entity does not have reads as
  \<^verbatim>\<open>undefined\<close>.
\<close>

datatype js_value = JSUndefined | JSNull | JSString string

fun ToString :: "js_value \<Rightarrow> string" where
  "ToString JSUndefined = ''undefined''"
| "ToString JSNull = ''null''"
| "ToString (JSString s) = s"

fun truthy :: "js_value \<Rightarrow> bool" where
  "truthy JSUndefined = False"
| "truthy JSNull = False"
| "truthy (JSString s) = (s \<noteq> [])"

record EntityIdOptions =
  opt_seq :: "int option"

text \<open>
  An entity: its property values, and what the decorators of its class recorded. The
  lookups \<^verbatim>\<open>getEntityIdProps\<close> and \<^verbatim>\<open>getRoutingIdProp\<close> belong to another package; their
  results are fields here: the map from the decorated property names to their options, in
  the order of insertion, which is \<open>None\<close> when the lookup yields \<^verbatim>\<open>undefined\<close>, and the name
  of the routing property.
\<close>

record Entity =
  properties :: "string \<rightharpoonup> js_value"
  entityIdProps :: "(string \<times> EntityIdOptions) list option"
  routingIdProp :: "string option"

definition prop_get :: "Entity \<Rightarrow> string \<Rightarrow> js_value" where
  "prop_get entity p = (case properties entity p of None \<Rightarrow> JSUndefined | Some v \<Rightarrow> v)"

record entityIdItem =
  item_prop :: string
  item_seq :: int

text \<open>\<^verbatim>\<open>{ prop: prop, seq: options.seq || 0 }\<close> for every entry of the map.\<close>

definition entityIdList :: "(string \<times> EntityIdOptions) list \<Rightarrow> entityIdItem list" where
  "entityIdList props =
     map (\<lambda>(p, options).
            \<lparr>item_prop = p, item_seq = (case opt_seq options of None \<Rightarrow> 0 | Some n \<Rightarrow> n)\<rparr>) props"

text \<open>
  \<^verbatim>\<open>(a, b) => a.seq - b.seq || a.prop.localeCompare(b.prop)\<close>. The collation of
  \<^verbatim>\<open>localeCompare\<close> depends on the locale of the platform, so it is a parameter.
\<close>

definition compareItems :: "(string \<Rightarrow> string \<Rightarrow> int) \<Rightarrow> entityIdItem \<Rightarrow> entityIdItem \<Rightarrow> int" where
  "compareItems localeCompare a b =
     (if item_seq a - item_seq b \<noteq> 0 then item_seq a - item_seq b
      else localeCompare (item_prop a) (item_prop b))"

text \<open>
  \<^verbatim>\<open>Array.prototype.sort\<close> with a comparison function is a stable sort; for a consistent
  comparison its result is the one computed here by insertion.
\<close>

fun sort_insert :: "('a \<Rightarrow> 'a \<Rightarrow> int) \<Rightarrow> 'a \<Rightarrow> 'a list \<Rightarrow> 'a list" where
  "sort_insert cmp x [] = [x]"
| "sort_insert cmp x (y # ys) =
     (if cmp x y \<le> 0 then x # y # ys else y # sort_insert cmp x ys)"

definition array_sort :: "('a \<Rightarrow> 'a \<Rightarrow> int) \<Rightarrow> 'a list \<Rightarrow> 'a list" where
  "array_sort cmp xs = foldr (sort_insert cmp) xs []"

text \<open>\<^verbatim>\<open>s.substr(0, n)\<close>: the first \<open>n\<close> characters, none when \<open>n\<close> is not positive.\<close>

definition substr0 :: "string \<Rightarrow> int \<Rightarrow> string" where
  "substr0 s n = take (nat n) s"

text \<open>
  \<^verbatim>\<open>entityId({ entity, delimiter = '-' })\<close>: the delimiter is optional. The result \<open>None\<close> is
  \<^verbatim>\<open>undefined\<close>.
\<close>

definition entityId ::
  "(string \<Rightarrow> string \<Rightarrow> int) \<Rightarrow> Entity \<Rightarrow> string option \<Rightarrow> string option" where
  "entityId localeCompare entity delimiter_arg =
     (case entityIdProps entity of
        None \<Rightarrow> None
      | Some props \<Rightarrow>
          let delimiter = (case delimiter_arg of None \<Rightarrow> ''-'' | Some d \<Rightarrow> d);
              sortedEntityIdList = array_sort (compareItems localeCompare) (entityIdList props);
              entityId = foldl (\<lambda>acc item. acc @ (ToString (prop_get entity (item_prop item)) @ delimiter))
                           [] sortedEntityIdList
          in Some (substr0 entityId (int (length entityId) - int (length delimiter))))"

definition routingId :: "Entity \<Rightarrow> js_value" where
  "routingId entity =
     (case routingIdProp entity of
        None \<Rightarrow> JSUndefined
      | Some p \<Rightarrow> if p = [] then JSUndefined else prop_get entity p)"

text \<open>
  The parameters of the request to the store. \<^verbatim>\<open>createEntity\<close> always sets an id;
  \<^verbatim>\<open>indexEntity\<close> passes whatever \<^verbatim>\<open>entityId\<close> returned. The body is the entity as
  \<^verbatim>\<open>classToPlain\<close> renders it, and the client is the store; both are parameters.
\<close>

record 'b RequestParams =
  index :: string
  id :: "string option"
  body :: 'b
  routing :: "js_value option"

definition with_routing :: "Entity \<Rightarrow> 'b RequestParams \<Rightarrow> 'b RequestParams" where
  "with_routing entity indexParams =
     (if truthy (routingId entity) then indexParams\<lparr>routing := Some (routingId entity)\<rparr>
      else indexParams)"

definition createEntity ::
  "(string \<Rightarrow> string \<Rightarrow> int) \<Rightarrow> (Entity \<Rightarrow> 'b) \<Rightarrow> ('b RequestParams \<Rightarrow> error + 'r)
     \<Rightarrow> Entity \<Rightarrow> string \<Rightarrow> error + 'r" where
  "createEntity localeCompare classToPlain client_create entity idx =
     (case entityId localeCompare entity None of
        None \<Rightarrow> Inl (Error ''entityId decorator requried'')
      | Some eid \<Rightarrow>
          if eid = [] then Inl (Error ''entityId decorator requried'')
          else client_create (with_routing entity
                 \<lparr>index = idx, id = Some eid, body = classToPlain entity, routing = None\<rparr>))"

definition indexEntity ::
  "(string \<Rightarrow> string \<Rightarrow> int) \<Rightarrow> (Entity \<Rightarrow> 'b) \<Rightarrow> ('b RequestParams \<Rightarrow> error + 'r)
     \<Rightarrow> Entity \<Rightarrow> string \<Rightarrow> error + 'r" where
  "indexEntity localeCompare classToPlain client_index entity idx =
     client_index (with_routing entity
       \<lparr>index = idx, id = entityId localeCompare entity None, body = classToPlain entity,
        routing = None\<rparr>)"

text \<open>A comparison of strings by their characters, one possible \<^verbatim>\<open>localeCompare\<close>.\<close>

fun compareChars :: "string \<Rightarrow> string \<Rightarrow> int" where
  "compareChars [] [] = 0"
| "compareChars [] (y # ys) = -1"
| "compareChars (x # xs) [] = 1"
| "compareChars (x # xs) (y # ys) =
     (if (of_char x :: nat) < of_char y then -1
      else if (of_char y :: nat) < of_char x then 1
      else compareChars xs ys)"

definition ExcludedMultiPropIdEntity :: Entity where
  "ExcludedMultiPropIdEntity =
     \<lparr>properties = [''aEntityId'' \<mapsto> JSString ''a'', ''bEntityId'' \<mapsto> JSString ''b'',
                     ''data'' \<mapsto> JSString ''isTestDocument''],
      entityIdProps = Some [(''aEntityId'', \<lparr>opt_seq = Some 1\<rparr>), (''bEntityId'', \<lparr>opt_seq = Some 0\<rparr>)],
      routingIdProp = None\<rparr>"

text \<open>The strings \<open>segs\<close> with \<open>d\<close> between each two of them.\<close>

fun join :: "string \<Rightarrow> string list \<Rightarrow> string" where
  "join d [] = []"
| "join d [x] = x"
| "join d (x # y # ys) = x @ d @ join d (y # ys)"

definition item_le :: "(string \<Rightarrow> string \<Rightarrow> int) \<Rightarrow> entityIdItem \<Rightarrow> entityIdItem \<Rightarrow> bool" where
  "item_le localeCompare a b =
     (item_seq a < item_seq b \<or>
      (item_seq a = item_seq b \<and> localeCompare (item_prop a) (item_prop b) \<le> 0))"

definition consistent_on :: "string set \<Rightarrow> (string \<Rightarrow> string \<Rightarrow> int) \<Rightarrow> bool" where
  "consistent_on N localeCompare =
     ((\<forall>a\<in>N. \<forall>b\<in>N. localeCompare a b \<le> 0 \<or> localeCompare b a \<le> 0) \<and>
      (\<forall>a\<in>N. \<forall>b\<in>N. \<forall>c\<in>N.
         localeCompare a b \<le> 0 \<and> localeCompare b c \<le> 0 \<longrightarrow> localeCompare a c \<le> 0))"

lemma concat_delimited:
  "segs \<noteq> [] \<Longrightarrow> concat (map (\<lambda>x. x @ d) segs) = join d segs @ d"
  by (induction d segs rule: join.induct) simp_all

lemma foldl_append_concat: "foldl (\<lambda>acc x. acc @ f x) a xs = a @ concat (map f xs)"
  by (induction xs arbitrary: a) simp_all

lemma mset_sort_insert: "mset (sort_insert cmp x ys) = add_mset x (mset ys)"
  by (induction ys) simp_all

lemma mset_array_sort: "mset (array_sort cmp xs) = mset xs"
  unfolding array_sort_def by (induction xs) (simp_all add: mset_sort_insert)

lemma set_array_sort: "set (array_sort cmp xs) = set xs"
  using mset_array_sort[of cmp xs] by (metis set_mset_mset)

lemma array_sort_Nil_iff: "array_sort cmp xs = [] \<longleftrightarrow> xs = []"
  using mset_array_sort[of cmp xs] by (metis mset_zero_iff)

definition delimiter_of :: "string option \<Rightarrow> string" where
  "delimiter_of delimiter_arg = (case delimiter_arg of None \<Rightarrow> ''-'' | Some d \<Rightarrow> d)"

lemma entityId_join:
  assumes "entityIdProps entity = Some ps" "ps \<noteq> []"
  shows "entityId lc entity dl =
           Some (join (delimiter_of dl) (map (\<lambda>item. ToString (prop_get entity (item_prop item)))
                          (array_sort (compareItems lc) (entityIdList ps))))"
proof -
  define d where "d = delimiter_of dl"
  define order where "order = array_sort (compareItems lc) (entityIdList ps)"
  define segs where "segs = map (\<lambda>item. ToString (prop_get entity (item_prop item))) order"
  have "entityIdList ps \<noteq> []" using assms(2) by (simp add: entityIdList_def)
  then have "segs \<noteq> []" by (simp add: segs_def order_def array_sort_Nil_iff)
  have "foldl (\<lambda>acc item. acc @ (ToString (prop_get entity (item_prop item)) @ d)) [] order
          = concat (map (\<lambda>x. x @ d) segs)"
    by (simp add: foldl_append_concat segs_def comp_def)
  also have "\<dots> = join d segs @ d" by (rule concat_delimited[OF \<open>segs \<noteq> []\<close>])
  finally have e: "foldl (\<lambda>acc item. acc @ (ToString (prop_get entity (item_prop item)) @ d)) [] order
          = join d segs @ d" .
  show ?thesis
    unfolding entityId_def assms(1) option.case Let_def delimiter_of_def[symmetric]
      d_def[symmetric] order_def[symmetric] e
    by (simp add: substr0_def segs_def)
qed

lemma compareItems_le: "compareItems lc a b \<le> 0 \<longleftrightarrow> item_le lc a b"
  by (auto simp: compareItems_def item_le_def)

lemma sorted_sort_insert:
  assumes tot: "\<And>a b. a \<in> S \<Longrightarrow> b \<in> S \<Longrightarrow> cmp a b \<le> 0 \<or> cmp b a \<le> 0"
    and trans: "\<And>a b c. a \<in> S \<Longrightarrow> b \<in> S \<Longrightarrow> c \<in> S \<Longrightarrow> cmp a b \<le> 0 \<Longrightarrow> cmp b c \<le> 0 \<Longrightarrow> cmp a c \<le> 0"
    and "x \<in> S" "set ys \<subseteq> S" "sorted_wrt (\<lambda>a b. cmp a b \<le> 0) ys"
  shows "sorted_wrt (\<lambda>a b. cmp a b \<le> 0) (sort_insert cmp x ys)"
  using assms(3-)
proof (induction ys)
  case Nil
  then show ?case by simp
next
  case (Cons y ys)
  show ?case
  proof (cases "cmp x y \<le> 0")
    case True
    have "cmp x z \<le> 0" if "z \<in> set ys" for z
      using trans[of x y z] True Cons.prems that by auto
    then show ?thesis using True Cons.prems by auto
  next
    case False
    then have yx: "cmp y x \<le> 0" using tot[of x y] Cons.prems by auto
    have "set (sort_insert cmp x ys) = insert x (set ys)"
      using mset_sort_insert[of cmp x ys] by (metis set_mset_add_mset_insert set_mset_mset)
    then show ?thesis using False yx Cons by auto
  qed
qed

lemma sorted_array_sort:
  assumes tot: "\<And>a b. a \<in> S \<Longrightarrow> b \<in> S \<Longrightarrow> cmp a b \<le> 0 \<or> cmp b a \<le> 0"
    and trans: "\<And>a b c. a \<in> S \<Longrightarrow> b \<in> S \<Longrightarrow> c \<in> S \<Longrightarrow> cmp a b \<le> 0 \<Longrightarrow> cmp b c \<le> 0 \<Longrightarrow> cmp a c \<le> 0"
    and "set xs \<subseteq> S"
  shows "sorted_wrt (\<lambda>a b. cmp a b \<le> 0) (array_sort cmp xs)"
  using assms(3)
proof (induction xs)
  case Nil
  then show ?case by (simp add: array_sort_def)
next
  case (Cons x xs)
  have "sorted_wrt (\<lambda>a b. cmp a b \<le> 0) (sort_insert cmp x (array_sort cmp xs))"
    by (rule sorted_sort_insert[where S = S, OF tot trans]) (use Cons in \<open>auto simp: set_array_sort\<close>)
  then show ?case by (simp add: array_sort_def)
qed

lemma item_le_total:
  assumes "consistent_on N lc" "item_prop a \<in> N" "item_prop b \<in> N"
  shows "item_le lc a b \<or> item_le lc b a"
  using assms unfolding consistent_on_def item_le_def by (metis linorder_neqE_linordered_idom)

lemma item_le_trans:
  assumes "consistent_on N lc" "item_prop a \<in> N" "item_prop b \<in> N" "item_prop c \<in> N"
    "item_le lc a b" "item_le lc b c"
  shows "item_le lc a c"
proof -
  have t: "lc (item_prop a) (item_prop b) \<le> 0 \<Longrightarrow> lc (item_prop b) (item_prop c) \<le> 0
            \<Longrightarrow> lc (item_prop a) (item_prop c) \<le> 0"
    using assms(1-4) unfolding consistent_on_def by blast
  show ?thesis using assms(5,6) t unfolding item_le_def by auto
qed

lemma item_prop_entityIdList: "item_prop ` set (entityIdList ps) = fst ` set ps"
  by (force simp: entityIdList_def image_iff)

lemma sorted_entityIdList:
  assumes "consistent_on (fst ` set ps) lc"
  shows "sorted_wrt (item_le lc) (array_sort (compareItems lc) (entityIdList ps))"
proof -
  define S where "S = {i :: entityIdItem. item_prop i \<in> fst ` set ps}"
  have "sorted_wrt (\<lambda>a b. compareItems lc a b \<le> 0) (array_sort (compareItems lc) (entityIdList ps))"
  proof (rule sorted_array_sort[where S = S])
    show "compareItems lc a b \<le> 0 \<or> compareItems lc b a \<le> 0" if "a \<in> S" "b \<in> S" for a b
      using item_le_total[OF assms, of a b] that by (simp add: compareItems_le S_def)
    show "compareItems lc a c \<le> 0"
      if "a \<in> S" "b \<in> S" "c \<in> S" "compareItems lc a b \<le> 0" "compareItems lc b c \<le> 0" for a b c
      using item_le_trans[OF assms, of a b c] that by (simp add: compareItems_le S_def)
    show "set (entityIdList ps) \<subseteq> S"
      using item_prop_entityIdList[of ps] by (auto simp: S_def)
  qed
  then show ?thesis by (simp add: compareItems_le)
qed


definition ThreeAbsentIdEntity :: Entity where
  "ThreeAbsentIdEntity =
     \<lparr>properties = Map.empty,
      entityIdProps = Some [(''a'', \<lparr>opt_seq = None\<rparr>), (''b'', \<lparr>opt_seq = None\<rparr>),
                            (''c'', \<lparr>opt_seq = None\<rparr>)],
      routingIdProp = None\<rparr>"

definition SimpleEntity :: "js_value \<Rightarrow> Entity" where
  "SimpleEntity v =
     \<lparr>properties = [''testEntityId'' \<mapsto> v],
      entityIdProps = Some [(''testEntityId'', \<lparr>opt_seq = None\<rparr>)],
      routingIdProp = None\<rparr>"

definition NoneIdEntity :: Entity where
  "NoneIdEntity =
     \<lparr>properties = [''data'' \<mapsto> JSString ''noneIdEntity''],
      entityIdProps = None, routingIdProp = None\<rparr>"

lemma join_replicate_map: "\<forall>x\<in>set xs. f x = s \<Longrightarrow> map f xs = replicate (length xs) s"
  by (induction xs) simp_all

text \<open>
  C5, as stated, fails. An entity with the three id properties \<open>a\<close>, \<open>b\<close>, \<open>c\<close> and no value
  for any of them does not get the id \<open>--\<close>: an absent value is appended to a string, and
  that renders it as the text \<open>undefined\<close>.
\<close>

theorem absent_value_counterexample:
  "entityId compareChars ThreeAbsentIdEntity (Some ''-'') = Some ''undefined-undefined-undefined'' \<and>
   entityId compareChars ThreeAbsentIdEntity (Some ''-'') \<noteq> Some ''--''"
  by (simp add: entityId_def ThreeAbsentIdEntity_def entityIdList_def array_sort_def
      compareItems_def prop_get_def substr0_def)

text \<open>
  C5, amended. For an entity whose class declares at least one id property, \<^verbatim>\<open>entityId\<close>
  returns a string, never an error: the texts of the values of the id properties in their
  sorted order, with the delimiter between them. A value that is absent is not left out and
  is not empty: \<^verbatim>\<open>undefined\<close> contributes the text \<open>undefined\<close> and \<^verbatim>\<open>null\<close> the text
  \<open>null\<close>. When every value is \<^verbatim>\<open>undefined\<close> the id is \<open>undefined\<close> once per id property,
  joined by the delimiter (\<open>undefined-undefined-undefined\<close> for three properties), and
  likewise with \<open>null\<close>.
\<close>

theorem absent_value_segment:
  assumes "entityIdProps entity = Some ps" "ps \<noteq> []"
  shows "entityId lc entity dl =
           Some (join (delimiter_of dl)
                  (map (\<lambda>item. ToString (prop_get entity (item_prop item)))
                     (array_sort (compareItems lc) (entityIdList ps)))) \<and>
         ToString JSUndefined = ''undefined'' \<and> ToString JSNull = ''null'' \<and>
         ((\<forall>p\<in>fst ` set ps. prop_get entity p = JSUndefined) \<longrightarrow>
            entityId lc entity dl
              = Some (join (delimiter_of dl) (replicate (length ps) ''undefined''))) \<and>
         ((\<forall>p\<in>fst ` set ps. prop_get entity p = JSNull) \<longrightarrow>
            entityId lc entity dl
              = Some (join (delimiter_of dl) (replicate (length ps) ''null'')))"
proof -
  define order where "order = array_sort (compareItems lc) (entityIdList ps)"
  have len: "length order = length ps"
    using mset_array_sort[of "compareItems lc" "entityIdList ps"]
    by (metis order_def size_mset length_map entityIdList_def)
  have names: "item_prop ` set order = fst ` set ps"
    by (simp add: order_def set_array_sort item_prop_entityIdList)
  have j: "entityId lc entity dl =
      Some (join (delimiter_of dl) (map (\<lambda>item. ToString (prop_get entity (item_prop item))) order))"
    unfolding order_def by (rule entityId_join[OF assms])
  have u: "map (\<lambda>item. ToString (prop_get entity (item_prop item))) order
             = replicate (length ps) (ToString v)"
    if v: "\<forall>p\<in>fst ` set ps. prop_get entity p = v" for v
  proof -
    have "\<forall>x\<in>set order. ToString (prop_get entity (item_prop x)) = ToString v"
    proof
      fix x assume "x \<in> set order"
      then have "item_prop x \<in> item_prop ` set order" by (rule imageI)
      then have "item_prop x \<in> fst ` set ps" by (simp only: names)
      from bspec[OF v this] show "ToString (prop_get entity (item_prop x)) = ToString v"
        by (rule arg_cong)
    qed
    from join_replicate_map[OF this] show ?thesis by (simp add: len)
  qed
  show ?thesis using j u[of JSUndefined] u[of JSNull] by (simp add: order_def)
qed

theorem absent_value_segment_witness:
  "entityIdProps ThreeAbsentIdEntity
     = Some [(''a'', \<lparr>opt_seq = None\<rparr>), (''b'', \<lparr>opt_seq = None\<rparr>), (''c'', \<lparr>opt_seq = None\<rparr>)] \<and>
   prop_get ThreeAbsentIdEntity ''a'' = JSUndefined \<and>
   prop_get ThreeAbsentIdEntity ''b'' = JSUndefined \<and>
   prop_get ThreeAbsentIdEntity ''c'' = JSUndefined \<and>
   entityId compareChars ThreeAbsentIdEntity None = Some ''undefined-undefined-undefined''"
proof -
  let ?ps = "[(''a'', \<lparr>opt_seq = None\<rparr>), (''b'', \<lparr>opt_seq = None\<rparr>), (''c'', \<lparr>opt_seq = None\<rparr>)]"
  have p: "entityIdProps ThreeAbsentIdEntity = Some ?ps" by (simp add: ThreeAbsentIdEntity_def)
  have n: "?ps \<noteq> []" by simp
  have u: "prop_get ThreeAbsentIdEntity ''a'' = JSUndefined"
    "prop_get ThreeAbsentIdEntity ''b'' = JSUndefined"
    "prop_get ThreeAbsentIdEntity ''c'' = JSUndefined"
    by (simp_all add: prop_get_def ThreeAbsentIdEntity_def)
  then have a: "\<forall>p\<in>fst ` set ?ps. prop_get ThreeAbsentIdEntity p = JSUndefined"
    by simp
  from absent_value_segment[OF p n, of compareChars None] a
  have "entityId compareChars ThreeAbsentIdEntity None
          = Some (join (delimiter_of None) (replicate (length ?ps) ''undefined''))"
    by blast
  then have "entityId compareChars ThreeAbsentIdEntity None = Some ''undefined-undefined-undefined''"
    by (simp add: delimiter_of_def numeral_3_eq_3)
  with u p show ?thesis by blast
qed

text \<open>
  C6. For an entity with declared id properties, \<^verbatim>\<open>entityId\<close> orders them by \<open>seq\<close>
  ascending (\<open>0\<close> when none is given) and, for equal \<open>seq\<close>, by name ascending in the order of
  \<^verbatim>\<open>localeCompare\<close>, and returns the texts of their values in that order with the delimiter
  between them and no delimiter at the end; the delimiter is \<open>-\<close> when none is given. The
  order of the names must be a consistent one on the names that occur (any two comparable,
  and transitive). For \<open>aEntityId\<close> with \<open>seq = 1\<close> and value \<open>a\<close>, and \<open>bEntityId\<close> with
  \<open>seq = 0\<close> and value \<open>b\<close>, the id is \<open>b-a\<close> (the witness).
\<close>

theorem entityId_sorted_join:
  assumes "entityIdProps entity = Some ps" "ps \<noteq> []" "consistent_on (fst ` set ps) lc"
  shows "\<exists>order. mset order = mset (entityIdList ps) \<and>
           sorted_wrt (item_le lc) order \<and>
           entityId lc entity dl =
             Some (join (delimiter_of dl)
                    (map (\<lambda>item. ToString (prop_get entity (item_prop item))) order)) \<and>
           delimiter_of None = ''-''"
proof (intro exI conjI)
  show "mset (array_sort (compareItems lc) (entityIdList ps)) = mset (entityIdList ps)"
    by (rule mset_array_sort)
  show "sorted_wrt (item_le lc) (array_sort (compareItems lc) (entityIdList ps))"
    by (rule sorted_entityIdList[OF assms(3)])
  show "entityId lc entity dl =
          Some (join (delimiter_of dl)
                 (map (\<lambda>item. ToString (prop_get entity (item_prop item)))
                    (array_sort (compareItems lc) (entityIdList ps))))"
    by (rule entityId_join[OF assms(1,2)])
  show "delimiter_of None = ''-''" by (simp add: delimiter_of_def)
qed

theorem entityId_sorted_join_witness:
  "entityIdProps ExcludedMultiPropIdEntity
     = Some [(''aEntityId'', \<lparr>opt_seq = Some 1\<rparr>), (''bEntityId'', \<lparr>opt_seq = Some 0\<rparr>)] \<and>
   (\<exists>order. mset order
              = mset (entityIdList [(''aEntityId'', \<lparr>opt_seq = Some 1\<rparr>),
                                    (''bEntityId'', \<lparr>opt_seq = Some 0\<rparr>)]) \<and>
            sorted_wrt (item_le compareChars) order \<and>
            entityId compareChars ExcludedMultiPropIdEntity None
              = Some (join ''-'' (map (\<lambda>item. ToString (prop_get ExcludedMultiPropIdEntity (item_prop item)))
                                     order))) \<and>
   entityId compareChars ExcludedMultiPropIdEntity None = Some ''b-a''"
proof -
  let ?ps = "[(''aEntityId'', \<lparr>opt_seq = Some 1\<rparr>), (''bEntityId'', \<lparr>opt_seq = Some 0\<rparr>)]"
  have p: "entityIdProps ExcludedMultiPropIdEntity = Some ?ps"
    by (simp add: ExcludedMultiPropIdEntity_def)
  have n: "?ps \<noteq> []" by simp
  have c: "consistent_on (fst ` set ?ps) compareChars"
    by (simp add: consistent_on_def)
  have v: "entityId compareChars ExcludedMultiPropIdEntity None = Some ''b-a''"
    by (simp add: entityId_def ExcludedMultiPropIdEntity_def entityIdList_def array_sort_def
        compareItems_def prop_get_def substr0_def)
  from entityId_sorted_join[OF p n c, of None] p v show ?thesis
    by (simp add: delimiter_of_def)
qed

lemma entityId_empty_map:
  "entityIdProps entity = Some [] \<Longrightarrow> entityId lc entity dl = Some []"
  by (simp add: entityId_def entityIdList_def array_sort_def substr0_def)

text \<open>
  C9. \<^verbatim>\<open>entityId\<close> returns \<^verbatim>\<open>undefined\<close> exactly when the class of the entity declares no
  id property, which is when the lookup of the decorated properties yields no map. It is
  a value, not an error; what to do without an id is left to the caller. (A map that is
  there but empty, which the decorators do not record for a class without id property,
  would give the empty string: \<open>entityId_empty_map\<close>.)
\<close>

theorem entityId_absent_iff:
  "(entityId lc entity dl = None) = (entityIdProps entity = None)"
  by (simp add: entityId_def Let_def split: option.splits)

theorem entityId_absent_iff_witness:
  "entityId compareChars NoneIdEntity None = None \<and> entityIdProps NoneIdEntity = None \<and>
   entityId compareChars (SimpleEntity (JSString ''simpleEntityId'')) None \<noteq> None \<and>
   entityIdProps (SimpleEntity (JSString ''simpleEntityId'')) \<noteq> None"
  using entityId_absent_iff[of compareChars NoneIdEntity None]
    entityId_absent_iff[of compareChars "SimpleEntity (JSString ''simpleEntityId'')" None]
  by (simp add: NoneIdEntity_def SimpleEntity_def)

text \<open>
  C10. \<^verbatim>\<open>createEntity\<close> throws the error \<open>entityId decorator requried\<close> whenever the id is
  falsy: when \<^verbatim>\<open>entityId\<close> returns \<^verbatim>\<open>undefined\<close>, and also when it returns the empty string,
  as it does for a single id property whose value is the empty string. Otherwise it sends
  the request with that id. \<^verbatim>\<open>indexEntity\<close> has no such check: it sends the request with
  whatever \<^verbatim>\<open>entityId\<close> returned, an absent id included.
\<close>

theorem createEntity_requires_id:
  "((entityId lc entity None = None \<or> entityId lc entity None = Some []) \<longrightarrow>
      createEntity lc classToPlain client entity idx = Inl (Error ''entityId decorator requried'')) \<and>
   (\<forall>eid. entityId lc entity None = Some eid \<and> eid \<noteq> [] \<longrightarrow>
      createEntity lc classToPlain client entity idx
        = client (with_routing entity
            \<lparr>index = idx, id = Some eid, body = classToPlain entity, routing = None\<rparr>)) \<and>
   (\<forall>p options. entityIdProps entity = Some [(p, options)] \<and> prop_get entity p = JSString [] \<longrightarrow>
      entityId lc entity None = Some [] \<and>
      createEntity lc classToPlain client entity idx = Inl (Error ''entityId decorator requried'')) \<and>
   indexEntity lc classToPlain client entity idx
     = client (with_routing entity
         \<lparr>index = idx, id = entityId lc entity None, body = classToPlain entity, routing = None\<rparr>)"
proof -
  have single: "entityId lc entity None = Some []"
    if "entityIdProps entity = Some [(p, options)]" "prop_get entity p = JSString []" for p options
    using that
    by (simp add: entityId_def entityIdList_def array_sort_def substr0_def)
  show ?thesis
    using single by (auto simp: createEntity_def indexEntity_def split: option.splits)
qed

theorem createEntity_requires_id_witness:
  "entityId compareChars NoneIdEntity None = None \<and>
   createEntity compareChars properties Inr NoneIdEntity ''test''
     = Inl (Error ''entityId decorator requried'') \<and>
   entityIdProps (SimpleEntity (JSString [])) = Some [(''testEntityId'', \<lparr>opt_seq = None\<rparr>)] \<and>
   prop_get (SimpleEntity (JSString [])) ''testEntityId'' = JSString [] \<and>
   createEntity compareChars properties Inr (SimpleEntity (JSString [])) ''test''
     = Inl (Error ''entityId decorator requried'') \<and>
   entityId compareChars (SimpleEntity (JSString ''simpleEntityId'')) None = Some ''simpleEntityId'' \<and>
   createEntity compareChars properties Inr (SimpleEntity (JSString ''simpleEntityId'')) ''test''
     = Inr \<lparr>index = ''test'', id = Some ''simpleEntityId'',
            body = properties (SimpleEntity (JSString ''simpleEntityId'')), routing = None\<rparr> \<and>
   indexEntity compareChars properties Inr NoneIdEntity ''test''
     = Inr \<lparr>index = ''test'', id = None, body = properties NoneIdEntity, routing = None\<rparr>"
proof -
  have a: "entityId compareChars NoneIdEntity None = None"
    by (simp add: entityId_def NoneIdEntity_def)
  have b: "entityIdProps (SimpleEntity (JSString [])) = Some [(''testEntityId'', \<lparr>opt_seq = None\<rparr>)]"
    "prop_get (SimpleEntity (JSString [])) ''testEntityId'' = JSString []"
    by (simp_all add: SimpleEntity_def prop_get_def)
  have c: "entityId compareChars (SimpleEntity (JSString ''simpleEntityId'')) None = Some ''simpleEntityId''"
    by (simp add: entityId_def SimpleEntity_def entityIdList_def array_sort_def prop_get_def substr0_def)
  have r: "with_routing NoneIdEntity x = x"
     "with_routing (SimpleEntity v) y = y" for x y :: "'z RequestParams" and v
    by (simp_all add: with_routing_def routingId_def NoneIdEntity_def SimpleEntity_def)
  note t1 = createEntity_requires_id[of compareChars NoneIdEntity properties Inr "''test''"]
  note t2 = createEntity_requires_id[of compareChars "SimpleEntity (JSString [])" properties Inr "''test''"]
  note t3 = createEntity_requires_id[of compareChars "SimpleEntity (JSString ''simpleEntityId'')" properties Inr "''test''"]
  have 1: "createEntity compareChars properties Inr NoneIdEntity ''test''
     = Inl (Error ''entityId decorator requried'')" using t1 a by blast
  have 2: "createEntity compareChars properties Inr (SimpleEntity (JSString [])) ''test''
     = Inl (Error ''entityId decorator requried'')" using t2 b by blast
  have 3: "createEntity compareChars properties Inr (SimpleEntity (JSString ''simpleEntityId'')) ''test''
     = Inr (with_routing (SimpleEntity (JSString ''simpleEntityId''))
         \<lparr>index = ''test'', id = Some ''simpleEntityId'',
            body = properties (SimpleEntity (JSString ''simpleEntityId'')), routing = None\<rparr>)"
    using t3 c by simp
  have 4: "indexEntity compareChars properties Inr NoneIdEntity ''test''
     = Inr (with_routing NoneIdEntity
         \<lparr>index = ''test'', id = None, body = properties NoneIdEntity, routing = None\<rparr>)"
    using t1 a by simp
  show ?thesis using a b c 1 2 3 4 by (simp add: r)
qed

end
